theory Spec2Isabelle
  imports Main "HOL-Library.AList"
begin

section \<open>Command stack (src/editor/command-manager.js)\<close>

text \<open>
  A \<^verbatim>\<open>Command\<close> object carries a name and the flag \<^verbatim>\<open>isUndoable\<close>. What its
  \<^verbatim>\<open>execute()\<close> or \<^verbatim>\<open>undo()\<close> method does is code of the caller; from the manager's side
  one call of such a method is an \<open>invocation\<close>: the public methods of the manager it
  calls back while it runs (\<^verbatim>\<open>LoadSceneCommand.execute\<close> calls \<^verbatim>\<open>commandManager.clear()\<close>),
  and whether it ends by throwing.
\<close>

record command =
  name :: string
  isUndoable :: bool

datatype reentrant = ReExecute | ReUndo | ReRedo | ReClear

record invocation =
  calls :: "reentrant list"
  throws :: bool

text \<open>
  The fields of \<^verbatim>\<open>CommandManager\<close>. Both stacks are JavaScript arrays: \<^verbatim>\<open>push\<close> appends at
  the end, \<^verbatim>\<open>pop\<close> takes the last element, \<^verbatim>\<open>shift\<close> drops the first. The manager extends
  \<^verbatim>\<open>EventEmitter\<close>; \<open>emitted\<close> records the names passed to \<^verbatim>\<open>this.emit\<close>, oldest first.
\<close>

record cmdmgr =
  undoStack :: "command list"
  redoStack :: "command list"
  maxStackSize :: nat
  isExecuting :: bool
  emitted :: "string list"

definition new_CommandManager :: cmdmgr where
  "new_CommandManager =
     \<lparr>undoStack = [], redoStack = [], maxStackSize = 100, isExecuting = False, emitted = []\<rparr>"

definition emit_change :: "cmdmgr \<Rightarrow> cmdmgr" where
  "emit_change s = s\<lparr>emitted := emitted s @ [''change'']\<rparr>"

definition clear_history :: "cmdmgr \<Rightarrow> cmdmgr" where
  "clear_history s = emit_change (s\<lparr>undoStack := [], redoStack := []\<rparr>)"

text \<open>
  A call made by a command's own method arrives while \<^verbatim>\<open>isExecuting\<close> is true:
  \<^verbatim>\<open>execute\<close>, \<^verbatim>\<open>undo\<close> and \<^verbatim>\<open>redo\<close> return at their guard (lemmas \<open>execute_busy\<close>,
  \<open>undo_busy\<close>, \<open>redo_busy\<close> below), \<^verbatim>\<open>clear\<close> has no guard.
\<close>

fun reentrant_call :: "reentrant \<Rightarrow> cmdmgr \<Rightarrow> cmdmgr" where
  "reentrant_call ReClear s = clear_history s"
| "reentrant_call ReExecute s = s"
| "reentrant_call ReUndo s = s"
| "reentrant_call ReRedo s = s"

definition run_body :: "invocation \<Rightarrow> cmdmgr \<Rightarrow> cmdmgr" where
  "run_body iv s = fold reentrant_call (calls iv) s"

text \<open>
  \<^verbatim>\<open>execute(command)\<close>. The argument is \<open>None\<close> for an object that is not an instance of
  \<^verbatim>\<open>Command\<close>. The \<^verbatim>\<open>emit('change')\<close> stands inside the \<^verbatim>\<open>try\<close> block after the stack
  update; the \<^verbatim>\<open>catch\<close> block only logs; \<^verbatim>\<open>finally\<close> resets the flag.
\<close>

definition execute :: "cmdmgr \<Rightarrow> command option \<Rightarrow> invocation \<Rightarrow> cmdmgr" where
  "execute s arg iv =
     (case arg of
        None \<Rightarrow> s
      | Some cmd \<Rightarrow>
          if isExecuting s then s
          else
            let s1 = run_body iv (s\<lparr>isExecuting := True\<rparr>) in
            if throws iv then s1\<lparr>isExecuting := False\<rparr>
            else
              let s2 =
                    (if isUndoable cmd then
                       let s' = s1\<lparr>undoStack := undoStack s1 @ [cmd], redoStack := []\<rparr>
                       in if length (undoStack s') > maxStackSize s'
                          then s'\<lparr>undoStack := tl (undoStack s')\<rparr> else s'
                     else if length (redoStack s1) > 0 then s1\<lparr>redoStack := []\<rparr> else s1)
              in (emit_change s2)\<lparr>isExecuting := False\<rparr>)"

text \<open>\<^verbatim>\<open>undo()\<close>; \<open>iv\<close> is what the popped command's \<^verbatim>\<open>undo()\<close> does in this call.\<close>

definition undo :: "cmdmgr \<Rightarrow> invocation \<Rightarrow> cmdmgr" where
  "undo s iv =
     (if isExecuting s \<or> length (undoStack s) = 0 then s
      else
        let cmd = last (undoStack s);
            s0 = s\<lparr>undoStack := butlast (undoStack s)\<rparr>
        in if \<not> isUndoable cmd then emit_change s0
           else
             let s1 = run_body iv (s0\<lparr>isExecuting := True\<rparr>) in
             if throws iv
             then (emit_change (s1\<lparr>undoStack := undoStack s1 @ [cmd]\<rparr>))\<lparr>isExecuting := False\<rparr>
             else (emit_change (s1\<lparr>redoStack := redoStack s1 @ [cmd]\<rparr>))\<lparr>isExecuting := False\<rparr>)"

text \<open>\<^verbatim>\<open>redo()\<close>; \<open>iv\<close> is what the popped command's \<^verbatim>\<open>execute()\<close> does in this call.\<close>

definition redo :: "cmdmgr \<Rightarrow> invocation \<Rightarrow> cmdmgr" where
  "redo s iv =
     (if isExecuting s \<or> length (redoStack s) = 0 then s
      else
        let cmd = last (redoStack s);
            s0 = s\<lparr>redoStack := butlast (redoStack s)\<rparr>
        in if \<not> isUndoable cmd then emit_change s0
           else
             let s1 = run_body iv (s0\<lparr>isExecuting := True\<rparr>) in
             if throws iv
             then (emit_change (s1\<lparr>redoStack := redoStack s1 @ [cmd]\<rparr>))\<lparr>isExecuting := False\<rparr>
             else (emit_change (s1\<lparr>undoStack := undoStack s1 @ [cmd]\<rparr>))\<lparr>isExecuting := False\<rparr>)"

text \<open>A caller's view of the manager: one public call after the other.\<close>

datatype cm_op =
    OpExecute "command option" invocation
  | OpUndo invocation
  | OpRedo invocation
  | OpClear

fun cm_step :: "cm_op \<Rightarrow> cmdmgr \<Rightarrow> cmdmgr" where
  "cm_step (OpExecute arg iv) s = execute s arg iv"
| "cm_step (OpUndo iv) s = undo s iv"
| "cm_step (OpRedo iv) s = redo s iv"
| "cm_step OpClear s = clear_history s"

definition cm_run :: "cm_op list \<Rightarrow> cmdmgr \<Rightarrow> cmdmgr" where
  "cm_run ops s = fold cm_step ops s"

text \<open>A fresh manager whose \<^verbatim>\<open>maxStackSize\<close> field has been set to \<open>m\<close>.\<close>

definition configured :: "nat \<Rightarrow> cmdmgr" where
  "configured m = new_CommandManager\<lparr>maxStackSize := m\<rparr>"

definition returns_normally :: invocation where
  "returns_normally = \<lparr>calls = [], throws = False\<rparr>"

definition fails :: invocation where
  "fails = \<lparr>calls = [], throws = True\<rparr>"

text \<open>
  The two stacks together never hold more than \<^verbatim>\<open>maxStackSize\<close> commands; this is the
  invariant behind the bound on the undo stack (\<^verbatim>\<open>redo\<close> pushes on it without a check).
\<close>

definition within_bound :: "cmdmgr \<Rightarrow> bool" where
  "within_bound s = (length (undoStack s) + length (redoStack s) \<le> maxStackSize s)"

text \<open>Three undoable commands for the concrete scenarios.\<close>

definition cmd_a :: command where
  "cmd_a = \<lparr>name = ''a'', isUndoable = True\<rparr>"

definition cmd_b :: command where
  "cmd_b = \<lparr>name = ''b'', isUndoable = True\<rparr>"

definition cmd_c :: command where
  "cmd_c = \<lparr>name = ''c'', isUndoable = True\<rparr>"

subsection \<open>Facts about the command stack\<close>

lemma fold_reentrant_call:
  "fold reentrant_call cs s =
     s\<lparr>undoStack := (if ReClear \<in> set cs then [] else undoStack s),
       redoStack := (if ReClear \<in> set cs then [] else redoStack s),
       emitted := emitted s @ replicate (length (filter (\<lambda>c. c = ReClear) cs)) ''change''\<rparr>"
proof (induction cs arbitrary: s)
  case Nil
  show ?case by simp
next
  case (Cons c cs)
  show ?case
    by (cases c) (simp_all add: Cons.IH clear_history_def emit_change_def replicate_app_Cons_same)
qed

lemma run_body_fields:
  "isExecuting (run_body iv s) = isExecuting s"
  "maxStackSize (run_body iv s) = maxStackSize s"
  by (simp_all add: run_body_def fold_reentrant_call)

lemma run_body_stacks:
  "undoStack (run_body iv s) = (if ReClear \<in> set (calls iv) then [] else undoStack s)"
  "redoStack (run_body iv s) = (if ReClear \<in> set (calls iv) then [] else redoStack s)"
  by (simp_all add: run_body_def fold_reentrant_call)

lemma run_body_emitted:
  "emitted (run_body iv s) =
     emitted s @ replicate (length (filter (\<lambda>c. c = ReClear) (calls iv))) ''change''"
  by (simp add: run_body_def fold_reentrant_call)

lemma execute_busy: "isExecuting s \<Longrightarrow> execute s arg iv = s"
  by (simp add: execute_def split: option.splits)

lemma undo_busy: "isExecuting s \<Longrightarrow> undo s iv = s"
  by (simp add: undo_def)

lemma redo_busy: "isExecuting s \<Longrightarrow> redo s iv = s"
  by (simp add: redo_def)

lemma execute_within_bound:
  assumes "within_bound s"
  shows "within_bound (execute s arg iv) \<and> maxStackSize (execute s arg iv) = maxStackSize s"
proof (cases arg)
  case None
  with assms show ?thesis by (simp add: execute_def)
next
  case (Some cmd)
  show ?thesis
  proof (cases "isExecuting s")
    case True
    with assms Some show ?thesis by (simp add: execute_def)
  next
    case False
    show ?thesis
      using assms Some False
      by (cases "undoStack s")
        (auto simp: execute_def Let_def within_bound_def emit_change_def
          run_body_fields run_body_stacks)
  qed
qed

lemma undo_within_bound:
  assumes "within_bound s"
  shows "within_bound (undo s iv) \<and> maxStackSize (undo s iv) = maxStackSize s"
proof (cases "isExecuting s \<or> length (undoStack s) = 0")
  case True
  with assms show ?thesis by (auto simp: undo_def)
next
  case False
  then obtain n where "length (undoStack s) = Suc n"
    by (cases "undoStack s") auto
  then show ?thesis
    using False assms
    by (auto simp: undo_def Let_def within_bound_def emit_change_def
        run_body_fields run_body_stacks)
qed

lemma redo_within_bound:
  assumes "within_bound s"
  shows "within_bound (redo s iv) \<and> maxStackSize (redo s iv) = maxStackSize s"
proof (cases "isExecuting s \<or> length (redoStack s) = 0")
  case True
  with assms show ?thesis by (auto simp: redo_def)
next
  case False
  then obtain n where "length (redoStack s) = Suc n"
    by (cases "redoStack s") auto
  then show ?thesis
    using False assms
    by (auto simp: redo_def Let_def within_bound_def emit_change_def
        run_body_fields run_body_stacks)
qed

lemma cm_step_within_bound:
  assumes "within_bound s"
  shows "within_bound (cm_step op s) \<and> maxStackSize (cm_step op s) = maxStackSize s"
proof (cases op)
  case (OpExecute arg iv)
  with assms show ?thesis by (simp add: execute_within_bound)
next
  case (OpUndo iv)
  with assms show ?thesis by (simp add: undo_within_bound)
next
  case (OpRedo iv)
  with assms show ?thesis by (simp add: redo_within_bound)
next
  case OpClear
  then show ?thesis by (simp add: within_bound_def clear_history_def emit_change_def)
qed

lemma cm_run_within_bound:
  "within_bound s \<Longrightarrow>
     within_bound (cm_run ops s) \<and> maxStackSize (cm_run ops s) = maxStackSize s"
proof (induction ops arbitrary: s)
  case Nil
  then show ?case by (simp add: cm_run_def)
next
  case (Cons op ops)
  from cm_step_within_bound [OF Cons.prems, of op]
  have "within_bound (cm_step op s)" and m: "maxStackSize (cm_step op s) = maxStackSize s"
    by simp_all
  from Cons.IH [OF this(1)] m show ?case by (simp add: cm_run_def)
qed

lemma undo_bound_from_configured:
  "length (undoStack (cm_run ops (configured m))) \<le> m"
proof -
  have "within_bound (configured m)"
    by (simp add: within_bound_def configured_def new_CommandManager_def)
  from cm_run_within_bound [OF this, of ops]
  show ?thesis by (simp add: within_bound_def configured_def new_CommandManager_def)
qed

lemma execute_success_clears_redo:
  "\<not> isExecuting s \<Longrightarrow> \<not> throws iv \<Longrightarrow> redoStack (execute s (Some c) iv) = []"
  by (simp add: execute_def Let_def emit_change_def)

lemma execute_success_undo_stack:
  assumes "\<not> isExecuting s" "\<not> throws iv" "isUndoable c"
  shows "undoStack (execute s (Some c) iv) =
     (if length (undoStack (run_body iv s) @ [c]) > maxStackSize s
      then tl (undoStack (run_body iv s) @ [c])
      else undoStack (run_body iv s) @ [c])"
  using assms
  by (simp add: execute_def Let_def emit_change_def run_body_fields run_body_stacks)

lemma execute_evicts_oldest:
  assumes "\<not> isExecuting s" "\<not> throws iv" "calls iv = []" "isUndoable c"
    and "length (undoStack s) = maxStackSize s" "0 < maxStackSize s"
  shows "undoStack (execute s (Some c) iv) = tl (undoStack s) @ [c]"
proof -
  have "undoStack s \<noteq> []" using assms(5,6) by auto
  then show ?thesis
    using assms by (simp add: execute_def Let_def emit_change_def run_body_def)
qed

lemma three_commands_max_two:
  assumes "isUndoable c1" "isUndoable c2" "isUndoable c3"
  shows "undoStack (cm_run [OpExecute (Some c1) returns_normally,
            OpExecute (Some c2) returns_normally,
            OpExecute (Some c3) returns_normally] (configured 2)) = [c2, c3]"
  using assms
  by (simp add: cm_run_def execute_def Let_def emit_change_def run_body_def
      configured_def new_CommandManager_def returns_normally_def)

text \<open>
  What an \<^verbatim>\<open>execute\<close> call that passes the guard leaves behind. The busy flag is cleared.
  When the command returns normally the manager's last act is to emit \<^verbatim>\<open>change\<close>. When the
  command throws the manager pushes nothing and emits nothing: stacks and events are what
  the command's own calls on the manager left, and unchanged when it made none.
\<close>

lemma execute_outcome:
  assumes "\<not> isExecuting s"
  shows "\<not> isExecuting (execute s (Some c) iv)
    \<and> (\<not> throws iv \<longrightarrow> (\<exists>es. emitted (execute s (Some c) iv) = emitted s @ es @ [''change'']))
    \<and> (throws iv \<longrightarrow> undoStack (execute s (Some c) iv) = undoStack (run_body iv s)
          \<and> redoStack (execute s (Some c) iv) = redoStack (run_body iv s)
          \<and> emitted (execute s (Some c) iv) = emitted (run_body iv s))
    \<and> (throws iv \<and> calls iv = [] \<longrightarrow> undoStack (execute s (Some c) iv) = undoStack s
          \<and> redoStack (execute s (Some c) iv) = redoStack s
          \<and> emitted (execute s (Some c) iv) = emitted s)"
  using assms
  by (simp add: execute_def Let_def emit_change_def run_body_fields run_body_stacks
      run_body_emitted)

text \<open>
  Claim C6, as the code has it. From a fresh manager configured with \<^verbatim>\<open>maxStackSize = m\<close>,
  after any sequence of \<^verbatim>\<open>execute\<close>, \<^verbatim>\<open>undo\<close>, \<^verbatim>\<open>redo\<close> and \<^verbatim>\<open>clear\<close> calls the undo stack
  holds at most \<open>m\<close> commands. An \<^verbatim>\<open>execute\<close> call that is not rejected and whose command
  returns normally leaves the redo stack empty, whether the command is undoable or not;
  when the command is undoable, the call appends it to the undo stack that the command's
  own calls on the manager left, and drops the oldest entry when that makes the stack
  longer than \<^verbatim>\<open>maxStackSize\<close>; on a full stack, with a command that does not call the manager,
  the result is the old stack without its oldest entry, followed by the command. With
  \<^verbatim>\<open>maxStackSize = 2\<close>, three undoable commands leave the last two on the undo stack.
\<close>

theorem undo_stack_bounded_redo_cleared_on_success:
  "length (undoStack (cm_run ops (configured m))) \<le> m
   \<and> (\<not> isExecuting s \<and> \<not> throws iv \<longrightarrow> redoStack (execute s (Some c) iv) = [])
   \<and> (\<not> isExecuting s' \<and> \<not> throws iv \<and> isUndoable c
      \<longrightarrow> undoStack (execute s' (Some c) iv) =
           (if length (undoStack (run_body iv s') @ [c]) > maxStackSize s'
            then tl (undoStack (run_body iv s') @ [c])
            else undoStack (run_body iv s') @ [c]))
   \<and> (\<not> isExecuting s' \<and> \<not> throws iv \<and> calls iv = [] \<and> isUndoable c
        \<and> length (undoStack s') = maxStackSize s' \<and> 0 < maxStackSize s'
      \<longrightarrow> undoStack (execute s' (Some c) iv) = tl (undoStack s') @ [c])
   \<and> (isUndoable c1 \<and> isUndoable c2 \<and> isUndoable c3
      \<longrightarrow> undoStack (cm_run [OpExecute (Some c1) returns_normally,
            OpExecute (Some c2) returns_normally,
            OpExecute (Some c3) returns_normally] (configured 2)) = [c2, c3])"
  using undo_bound_from_configured [of ops m] execute_success_clears_redo [of s iv c]
    execute_success_undo_stack [of s' iv c]
    execute_evicts_oldest [of s' iv c] three_commands_max_two [of c1 c2 c3]
  by blast

text \<open>The theorem at concrete runs on a manager with \<^verbatim>\<open>maxStackSize = 2\<close>.\<close>

theorem undo_stack_bounded_redo_cleared_on_success_witness:
  "length (undoStack (cm_run [OpExecute (Some cmd_a) returns_normally, OpUndo returns_normally,
        OpRedo returns_normally] (configured 2))) \<le> 2
   \<and> redoStack (execute (cm_run [OpExecute (Some cmd_a) returns_normally,
        OpUndo returns_normally] (configured 2)) (Some cmd_b) returns_normally) = []
   \<and> undoStack (execute (cm_run [OpExecute (Some cmd_a) returns_normally,
        OpExecute (Some cmd_b) returns_normally] (configured 2)) (Some cmd_c) returns_normally)
      = [cmd_b, cmd_c]
   \<and> undoStack (cm_run [OpExecute (Some cmd_a) returns_normally,
            OpExecute (Some cmd_b) returns_normally,
            OpExecute (Some cmd_c) returns_normally] (configured 2)) = [cmd_b, cmd_c]"
  using undo_stack_bounded_redo_cleared_on_success
    [of "[OpExecute (Some cmd_a) returns_normally, OpUndo returns_normally,
          OpRedo returns_normally]" 2
        "cm_run [OpExecute (Some cmd_a) returns_normally, OpUndo returns_normally] (configured 2)"
        returns_normally cmd_b
        "cm_run [OpExecute (Some cmd_a) returns_normally,
           OpExecute (Some cmd_b) returns_normally] (configured 2)"
        cmd_a cmd_b cmd_c]
  by (simp add: cm_run_def execute_def undo_def Let_def emit_change_def run_body_def
      configured_def new_CommandManager_def returns_normally_def cmd_a_def cmd_b_def cmd_c_def)

text \<open>
  The claim as stated says that an \<^verbatim>\<open>execute\<close> call always clears the redo stack. After
  \<^verbatim>\<open>execute(a); undo()\<close> the redo stack holds \<open>a\<close>; an \<^verbatim>\<open>execute(b)\<close> whose command throws
  leaves it there.
\<close>

theorem failed_execute_keeps_redo_counterexample:
  "redoStack (cm_run [OpExecute (Some cmd_a) returns_normally, OpUndo returns_normally,
      OpExecute (Some cmd_b) fails] (configured 2)) = [cmd_a]"
  by (simp add: cm_run_def execute_def undo_def Let_def emit_change_def run_body_def
      configured_def new_CommandManager_def returns_normally_def fails_def cmd_a_def cmd_b_def)

text \<open>
  Claim C7 fails on the code when the command throws. On a fresh manager \<^verbatim>\<open>execute(a)\<close> with
  a command whose \<^verbatim>\<open>execute()\<close> throws returns with the busy flag cleared and with \<open>a\<close> not
  pushed, as the claim says, but no \<^verbatim>\<open>change\<close> event has been emitted: \<^verbatim>\<open>emit('change')\<close> stands
  in the \<^verbatim>\<open>try\<close> block behind the call of the command, and the \<^verbatim>\<open>catch\<close> block only logs. The
  same command returning normally is announced by \<^verbatim>\<open>change\<close>, and so are an \<^verbatim>\<open>undo()\<close> and a
  \<^verbatim>\<open>redo()\<close> whose command throws: their \<^verbatim>\<open>catch\<close> blocks emit \<^verbatim>\<open>change\<close>.
\<close>

theorem failed_execute_emits_no_change:
  "\<not> isExecuting new_CommandManager
   \<and> emitted (execute new_CommandManager (Some cmd_a) fails) = []
   \<and> \<not> isExecuting (execute new_CommandManager (Some cmd_a) fails)
   \<and> undoStack (execute new_CommandManager (Some cmd_a) fails) = []
   \<and> redoStack (execute new_CommandManager (Some cmd_a) fails) = []
   \<and> emitted (execute new_CommandManager (Some cmd_a) returns_normally) = [''change'']
   \<and> emitted (undo (execute new_CommandManager (Some cmd_a) returns_normally) fails)
      = [''change'', ''change'']
   \<and> emitted (redo (undo (execute new_CommandManager (Some cmd_a) returns_normally)
                      returns_normally) fails)
      = [''change'', ''change'', ''change'']"
  by (simp add: execute_def undo_def redo_def Let_def emit_change_def run_body_def
      new_CommandManager_def fails_def returns_normally_def cmd_a_def)

section \<open>System scheduler (src/ecs/system-manager.js)\<close>

text \<open>
  The state the manager tracks for a registered system, and a system object. A lifecycle
  callback is code of the system: one call of it is described by the manager methods it
  calls (\<^verbatim>\<open>setSystemActive\<close>, \<^verbatim>\<open>setPriority\<close>, \<^verbatim>\<open>unregister\<close>) and by whether it throws. A
  callback the system does not define is \<open>None\<close>.
\<close>

record system_state =
  isInitialized :: bool
  priority :: int
  isActive :: bool

datatype sm_action =
    CallSetSystemActive string bool
  | CallSetPriority string int
  | CallUnregister string

record callback =
  actions :: "sm_action list"
  cb_throws :: bool

record system =
  preUpdate :: "callback option"
  update :: "callback option"
  postUpdate :: "callback option"
  cleanup_throws :: "bool option"

text \<open>
  \<^verbatim>\<open>systems\<close> and \<^verbatim>\<open>systemStates\<close> are JavaScript Maps, kept as association lists in insertion
  order (\<^verbatim>\<open>_sortSystems\<close> reads the entries in that order). \<open>ran\<close> is the trace of callbacks
  started, oldest first; \<open>engineStopped\<close> records a call of \<^verbatim>\<open>engine.stop()\<close>. The two sets that
  only throttle log output are left out.
\<close>

record sysmgr =
  systems :: "(string \<times> system) list"
  systemStates :: "(string \<times> system_state) list"
  executionOrder :: "string list"
  updateCounter :: nat
  engineStopped :: bool
  ran :: "(string \<times> string) list"

text \<open>\<^verbatim>\<open>_sortSystems\<close>: a stable sort of the state entries by ascending priority.\<close>

definition sortSystems :: "sysmgr \<Rightarrow> sysmgr" where
  "sortSystems s =
     s\<lparr>executionOrder := map fst (sort_key (\<lambda>e. priority (snd e)) (systemStates s))\<rparr>"

definition unregister :: "sysmgr \<Rightarrow> string \<Rightarrow> sysmgr" where
  "unregister s n =
     (case map_of (systems s) n of
        None \<Rightarrow> s
      | Some sys \<Rightarrow>
          sortSystems (s\<lparr>systems := AList.delete n (systems s),
                          systemStates := AList.delete n (systemStates s)\<rparr>))"

definition setPriority :: "sysmgr \<Rightarrow> string \<Rightarrow> int \<Rightarrow> sysmgr" where
  "setPriority s n p =
     (case map_of (systemStates s) n of
        None \<Rightarrow> s
      | Some st \<Rightarrow>
          if priority st \<noteq> p
          then sortSystems (s\<lparr>systemStates := AList.update n (st\<lparr>priority := p\<rparr>) (systemStates s)\<rparr>)
          else s)"

definition setSystemActive :: "sysmgr \<Rightarrow> string \<Rightarrow> bool \<Rightarrow> sysmgr" where
  "setSystemActive s n b =
     (case map_of (systemStates s) n of
        None \<Rightarrow> s
      | Some st \<Rightarrow>
          if \<not> isInitialized st then s
          else if isActive st \<noteq> b
          then s\<lparr>systemStates := AList.update n (st\<lparr>isActive := b\<rparr>) (systemStates s)\<rparr>
          else s)"

fun apply_action :: "sm_action \<Rightarrow> sysmgr \<Rightarrow> sysmgr" where
  "apply_action (CallSetSystemActive n b) s = setSystemActive s n b"
| "apply_action (CallSetPriority n p) s = setPriority s n p"
| "apply_action (CallUnregister n) s = unregister s n"

text \<open>
  One optional call \<^verbatim>\<open>system.phase?.(time)\<close>: the state after it, and whether it threw.
\<close>

definition run_callback ::
  "sysmgr \<Rightarrow> string \<Rightarrow> string \<Rightarrow> callback option \<Rightarrow> sysmgr \<times> bool" where
  "run_callback s n phase cb =
     (case cb of
        None \<Rightarrow> (s, False)
      | Some c \<Rightarrow> (fold apply_action (actions c) (s\<lparr>ran := ran s @ [(n, phase)]\<rparr>), cb_throws c))"

text \<open>The body of the \<^verbatim>\<open>try\<close> block: the three calls in order, up to the first throw.\<close>

definition run_system :: "sysmgr \<Rightarrow> string \<Rightarrow> system \<Rightarrow> sysmgr \<times> bool" where
  "run_system s n sys =
     (case run_callback s n ''preUpdate'' (preUpdate sys) of
        (s1, True) \<Rightarrow> (s1, True)
      | (s1, False) \<Rightarrow>
          (case run_callback s1 n ''update'' (update sys) of
             (s2, True) \<Rightarrow> (s2, True)
           | (s2, False) \<Rightarrow> run_callback s2 n ''postUpdate'' (postUpdate sys)))"

text \<open>
  The \<^verbatim>\<open>for\<close> loop of \<^verbatim>\<open>update(time)\<close> over the array that \<^verbatim>\<open>executionOrder\<close> held when the
  loop began. The second component of the result is the name of the system whose error
  was re-thrown to the caller, \<open>None\<close> when the loop ran to its end.
\<close>

fun update_loop :: "sysmgr \<Rightarrow> string list \<Rightarrow> sysmgr \<times> string option" where
  "update_loop s [] = (s, None)"
| "update_loop s (n # rest) =
     (case (map_of (systems s) n, map_of (systemStates s) n) of
        (Some sys, Some st) \<Rightarrow>
          if isInitialized st \<and> isActive st then
            (case run_system s n sys of
               (s', True) \<Rightarrow> (s', Some n)
             | (s', False) \<Rightarrow> update_loop s' rest)
          else update_loop s rest
      | _ \<Rightarrow> update_loop s rest)"

text \<open>
  The argument \<^verbatim>\<open>time\<close>: \<open>None\<close> for a falsy value, and \<open>deltaTime = None\<close> when that field is
  not a finite number.
\<close>

record timing =
  deltaTime :: "int option"

definition SystemManager_update :: "sysmgr \<Rightarrow> timing option \<Rightarrow> sysmgr \<times> string option" where
  "SystemManager_update s time =
     (let s0 = s\<lparr>updateCounter := updateCounter s + 1\<rparr> in
      case time of
        None \<Rightarrow> (s0\<lparr>engineStopped := True\<rparr>, None)
      | Some t \<Rightarrow>
          if deltaTime t = None then (s0\<lparr>engineStopped := True\<rparr>, None)
          else update_loop s0 (executionOrder s0))"

text \<open>A system is executed in the loop when it is present, initialized and active.\<close>

definition executed :: "sysmgr \<Rightarrow> string \<Rightarrow> bool" where
  "executed s n =
     (case (map_of (systems s) n, map_of (systemStates s) n) of
        (Some sys, Some st) \<Rightarrow> isInitialized st \<and> isActive st
      | _ \<Rightarrow> False)"

text \<open>The state in which the loop starts: the tick counter has been advanced.\<close>

definition ticked :: "sysmgr \<Rightarrow> sysmgr" where
  "ticked s = s\<lparr>updateCounter := updateCounter s + 1\<rparr>"

text \<open>A manager for the concrete scenarios: an inactive system, a name without a system, a
  system whose \<^verbatim>\<open>update\<close> throws, and a healthy one.\<close>

definition quiet :: callback where
  "quiet = \<lparr>actions = [], cb_throws = False\<rparr>"

definition faulty :: callback where
  "faulty = \<lparr>actions = [], cb_throws = True\<rparr>"

definition sys_ok :: system where
  "sys_ok = \<lparr>preUpdate = None, update = Some quiet, postUpdate = None, cleanup_throws = None\<rparr>"

definition sys_bad :: system where
  "sys_bad = \<lparr>preUpdate = Some quiet, update = Some faulty, postUpdate = Some quiet,
     cleanup_throws = None\<rparr>"

definition demo_manager :: sysmgr where
  "demo_manager =
     \<lparr>systems = [(''input'', sys_ok), (''physics'', sys_bad), (''render'', sys_ok)],
      systemStates =
        [(''input'', \<lparr>isInitialized = True, priority = 5, isActive = False\<rparr>),
         (''physics'', \<lparr>isInitialized = True, priority = 50, isActive = True\<rparr>),
         (''render'', \<lparr>isInitialized = True, priority = 100, isActive = True\<rparr>)],
      executionOrder = [''input'', ''ghost'', ''physics'', ''render''],
      updateCounter = 0, engineStopped = False, ran = []\<rparr>"

text \<open>
  Whether an optional callback throws, whether one of the three callbacks of a system
  throws, and the callbacks that one execution of a system starts: each one that the
  system defines, in the order \<^verbatim>\<open>preUpdate\<close>, \<^verbatim>\<open>update\<close>, \<^verbatim>\<open>postUpdate\<close>, up to the first that
  throws.
\<close>

definition callback_throws :: "callback option \<Rightarrow> bool" where
  "callback_throws cb = (case cb of None \<Rightarrow> False | Some c \<Rightarrow> cb_throws c)"

definition throwing :: "system \<Rightarrow> bool" where
  "throwing sys =
     (callback_throws (preUpdate sys) \<or> callback_throws (update sys)
      \<or> callback_throws (postUpdate sys))"

definition call_of :: "string \<Rightarrow> string \<Rightarrow> callback option \<Rightarrow> (string \<times> string) list" where
  "call_of n phase cb = (case cb of None \<Rightarrow> [] | Some c \<Rightarrow> [(n, phase)])"

definition started :: "string \<Rightarrow> system \<Rightarrow> (string \<times> string) list" where
  "started n sys =
     call_of n ''preUpdate'' (preUpdate sys)
     @ (if callback_throws (preUpdate sys) then []
        else call_of n ''update'' (update sys)
             @ (if callback_throws (update sys) then []
                else call_of n ''postUpdate'' (postUpdate sys)))"

text \<open>
  Whether the callback that an entry of the trace names throws, read from the systems
  that were registered when the tick began (a callback can unregister a system, none can
  register or replace one).
\<close>

definition phase_callback :: "system \<Rightarrow> string \<Rightarrow> callback option" where
  "phase_callback sys phase =
     (if phase = ''preUpdate'' then preUpdate sys
      else if phase = ''update'' then update sys
      else if phase = ''postUpdate'' then postUpdate sys
      else None)"

definition threw :: "sysmgr \<Rightarrow> string \<times> string \<Rightarrow> bool" where
  "threw s c =
     (case map_of (systems s) (fst c) of
        None \<Rightarrow> False
      | Some sys \<Rightarrow> callback_throws (phase_callback sys (snd c)))"

text \<open>
  Systems whose \<^verbatim>\<open>preUpdate\<close> and whose \<^verbatim>\<open>postUpdate\<close> throws, and the concrete manager with
  another system under the name \<open>physics\<close>.
\<close>

definition sys_bad_pre :: system where
  "sys_bad_pre = \<lparr>preUpdate = Some faulty, update = Some quiet, postUpdate = Some quiet,
     cleanup_throws = None\<rparr>"

definition sys_bad_post :: system where
  "sys_bad_post = \<lparr>preUpdate = Some quiet, update = Some quiet, postUpdate = Some faulty,
     cleanup_throws = None\<rparr>"

definition demo_with :: "system \<Rightarrow> sysmgr" where
  "demo_with sys =
     demo_manager\<lparr>systems := [(''input'', sys_ok), (''physics'', sys), (''render'', sys_ok)]\<rparr>"

subsection \<open>Facts about the update loop\<close>

lemma update_loop_skip: "\<not> executed s n \<Longrightarrow> update_loop s (n # rest) = update_loop s rest"
  by (auto simp: executed_def split: option.splits)

lemma update_loop_throw:
  assumes "executed s n" "map_of (systems s) n = Some sys" "snd (run_system s n sys)"
  shows "update_loop s (n # rest) = (fst (run_system s n sys), Some n)"
  using assms by (auto simp: executed_def split: option.splits prod.splits)

lemma update_loop_stops:
  "update_loop s xs = (s', Some e) \<Longrightarrow> update_loop s (xs @ ys) = (s', Some e)"
proof (induction s xs rule: update_loop.induct)
  case (1 s)
  then show ?case by simp
next
  case (2 s n rest)
  then show ?case
    by (auto split: option.splits prod.splits if_splits bool.splits)
qed

lemma fold_apply_action_ran: "ran (fold apply_action as s) = ran s"
proof (induction as arbitrary: s)
  case Nil
  show ?case by simp
next
  case (Cons a as)
  have "ran (apply_action a s) = ran s"
    by (cases a)
      (auto simp: setSystemActive_def setPriority_def unregister_def sortSystems_def
        split: option.splits)
  with Cons.IH show ?case by simp
qed

lemma run_callback_throw_last:
  "run_callback s n phase cb = (s', True) \<Longrightarrow> ran s' \<noteq> [] \<and> fst (last (ran s')) = n"
  by (auto simp: run_callback_def fold_apply_action_ran split: option.splits)

lemma run_system_throw_last:
  "run_system s n sys = (s', True) \<Longrightarrow> ran s' \<noteq> [] \<and> fst (last (ran s')) = n"
  unfolding run_system_def
  by (auto split: prod.splits bool.splits dest: run_callback_throw_last)

lemma update_loop_thrower_last:
  "update_loop s xs = (s', Some e) \<Longrightarrow> ran s' \<noteq> [] \<and> fst (last (ran s')) = e"
proof (induction s xs rule: update_loop.induct)
  case (1 s)
  then show ?case by simp
next
  case (2 s n rest)
  then show ?case
    by (auto split: option.splits prod.splits if_splits bool.splits dest: run_system_throw_last)
qed


lemma update_loop_append:
  "update_loop s xs = (s1, None) \<Longrightarrow> update_loop s (xs @ ys) = update_loop s1 ys"
proof (induction s xs rule: update_loop.induct)
  case (1 s)
  then show ?case by simp
next
  case (2 s n rest)
  then show ?case
    by (auto split: option.splits prod.splits if_splits bool.splits)
qed

lemma SystemManager_update_valid:
  "deltaTime t \<noteq> None \<Longrightarrow>
     SystemManager_update s (Some t) = update_loop (ticked s) (executionOrder s)"
  by (auto simp: SystemManager_update_def ticked_def Let_def)

lemma run_callback_outcome:
  "snd (run_callback s n phase cb) = callback_throws cb"
  "ran (fst (run_callback s n phase cb)) = ran s @ call_of n phase cb"
  by (auto simp: run_callback_def callback_throws_def call_of_def fold_apply_action_ran
      split: option.splits)

lemma run_system_unfold:
  "run_system s n sys =
     (let r1 = run_callback s n ''preUpdate'' (preUpdate sys) in
      if snd r1 then (fst r1, True)
      else
        let r2 = run_callback (fst r1) n ''update'' (update sys) in
        if snd r2 then (fst r2, True)
        else run_callback (fst r2) n ''postUpdate'' (postUpdate sys))"
  by (auto simp: run_system_def Let_def split: prod.splits bool.splits)

lemma run_system_outcome:
  "snd (run_system s n sys) = throwing sys"
  "ran (fst (run_system s n sys)) = ran s @ started n sys"
  by (simp_all add: run_system_unfold Let_def run_callback_outcome throwing_def started_def)

lemma update_loop_rethrows:
  assumes "executed s1 n" "map_of (systems s1) n = Some sys" "throwing sys"
  shows "\<exists>s2. update_loop s1 (n # post) = (s2, Some n) \<and> ran s2 = ran s1 @ started n sys"
proof -
  from assms(3) have "snd (run_system s1 n sys)" by (simp add: run_system_outcome)
  with assms(1,2) have "update_loop s1 (n # post) = (fst (run_system s1 n sys), Some n)"
    by (rule update_loop_throw)
  then show ?thesis by (simp add: run_system_outcome)
qed

lemma started_cases:
  "callback_throws (preUpdate sys) \<Longrightarrow> started n sys = [(n, ''preUpdate'')]"
  "\<not> callback_throws (preUpdate sys) \<Longrightarrow> callback_throws (update sys)
     \<Longrightarrow> started n sys = call_of n ''preUpdate'' (preUpdate sys) @ [(n, ''update'')]"
  "\<not> callback_throws (preUpdate sys) \<Longrightarrow> \<not> callback_throws (update sys)
     \<Longrightarrow> callback_throws (postUpdate sys)
     \<Longrightarrow> started n sys = call_of n ''preUpdate'' (preUpdate sys)
           @ call_of n ''update'' (update sys) @ [(n, ''postUpdate'')]"
  by (auto simp: started_def call_of_def callback_throws_def split: option.splits)

text \<open>The systems that are registered at some point of the tick were registered when it began.\<close>

definition registered_in :: "sysmgr \<Rightarrow> sysmgr \<Rightarrow> bool" where
  "registered_in s0 s = (\<forall>n sys. map_of (systems s) n = Some sys \<longrightarrow> map_of (systems s0) n = Some sys)"

lemma registered_in_refl [simp]: "registered_in s s"
  by (simp add: registered_in_def)

lemma apply_action_registered:
  "registered_in s0 s \<Longrightarrow> registered_in s0 (apply_action a s)"
  by (cases a)
    (auto simp: registered_in_def setSystemActive_def setPriority_def unregister_def
      sortSystems_def delete_conv' split: option.splits if_splits)

lemma fold_apply_action_registered:
  "registered_in s0 s \<Longrightarrow> registered_in s0 (fold apply_action as s)"
  by (induction as arbitrary: s) (simp_all add: apply_action_registered)

lemma run_callback_registered:
  "registered_in s0 s \<Longrightarrow> registered_in s0 (fst (run_callback s n phase cb))"
proof (cases cb)
  case None
  assume "registered_in s0 s"
  with None show ?thesis by (simp add: run_callback_def)
next
  case (Some c)
  assume "registered_in s0 s"
  then have "registered_in s0 (s\<lparr>ran := ran s @ [(n, phase)]\<rparr>)"
    by (simp add: registered_in_def)
  then show ?thesis
    using Some by (simp add: run_callback_def fold_apply_action_registered)
qed

lemma run_system_registered:
  assumes "registered_in s0 s"
  shows "registered_in s0 (fst (run_system s n sys))"
proof -
  let ?r1 = "run_callback s n ''preUpdate'' (preUpdate sys)"
  let ?r2 = "run_callback (fst ?r1) n ''update'' (update sys)"
  let ?r3 = "run_callback (fst ?r2) n ''postUpdate'' (postUpdate sys)"
  have 1: "registered_in s0 (fst ?r1)" using assms by (rule run_callback_registered)
  then have 2: "registered_in s0 (fst ?r2)" by (rule run_callback_registered)
  then have 3: "registered_in s0 (fst ?r3)" by (rule run_callback_registered)
  show ?thesis
    using 1 2 3 by (auto simp: run_system_def split: prod.splits bool.splits)
qed

lemma started_threw:
  assumes "map_of (systems s0) n = Some sys"
  shows "list_all (\<lambda>c. \<not> threw s0 c) (butlast (started n sys))"
    and "throwing sys \<Longrightarrow> started n sys \<noteq> [] \<and> fst (last (started n sys)) = n
           \<and> threw s0 (last (started n sys))"
    and "\<not> throwing sys \<Longrightarrow> list_all (\<lambda>c. \<not> threw s0 c) (started n sys)"
  using assms
  by (auto simp: started_def call_of_def callback_throws_def threw_def phase_callback_def
      throwing_def split: option.splits)

lemma update_loop_trace:
  "registered_in s0 s \<Longrightarrow> update_loop s xs = (s', r) \<Longrightarrow>
   \<exists>tr. ran s' = ran s @ tr \<and> registered_in s0 s'
      \<and> list_all (\<lambda>c. \<not> threw s0 c) (butlast tr)
      \<and> (r = None \<longrightarrow> list_all (\<lambda>c. \<not> threw s0 c) tr)
      \<and> (\<forall>e. r = Some e \<longrightarrow> tr \<noteq> [] \<and> fst (last tr) = e \<and> threw s0 (last tr))"
proof (induction xs arbitrary: s)
  case Nil
  then show ?case by auto
next
  case (Cons n rest)
  show ?case
  proof (cases "executed s n")
    case False
    then have "update_loop s (n # rest) = update_loop s rest" by (rule update_loop_skip)
    with Cons.prems(2) have "update_loop s rest = (s', r)" by metis
    from Cons.IH [OF Cons.prems(1) this] show ?thesis .
  next
    case True
    then obtain sys where sys: "map_of (systems s) n = Some sys"
      by (auto simp: executed_def split: option.splits)
    from sys Cons.prems(1) have sys0: "map_of (systems s0) n = Some sys"
      by (simp add: registered_in_def)
    let ?s1 = "fst (run_system s n sys)"
    have reg1: "registered_in s0 ?s1" using Cons.prems(1) by (rule run_system_registered)
    have ran1: "ran ?s1 = ran s @ started n sys" by (simp add: run_system_outcome)
    show ?thesis
    proof (cases "throwing sys")
      case thr: True
      then have "snd (run_system s n sys)" by (simp add: run_system_outcome)
      with True sys have "update_loop s (n # rest) = (?s1, Some n)"
        by (rule update_loop_throw)
      with Cons.prems(2) have "s' = ?s1" "r = Some n" by simp_all
      with reg1 ran1 started_threw(1,2) [OF sys0] thr show ?thesis by auto
    next
      case False
      then have ns: "\<not> snd (run_system s n sys)" by (simp add: run_system_outcome)
      with True sys have "update_loop s (n # rest) = update_loop ?s1 rest"
        by (auto simp: executed_def split: option.splits prod.splits)
      with Cons.prems(2) have rest: "update_loop ?s1 rest = (s', r)" by metis
      from Cons.IH [OF reg1 rest]
      obtain tr where tr: "ran s' = ran ?s1 @ tr" "registered_in s0 s'"
        "list_all (\<lambda>c. \<not> threw s0 c) (butlast tr)"
        "r = None \<longrightarrow> list_all (\<lambda>c. \<not> threw s0 c) tr"
        "\<forall>e. r = Some e \<longrightarrow> tr \<noteq> [] \<and> fst (last tr) = e \<and> threw s0 (last tr)"
        by auto
      from started_threw(3) [OF sys0 False]
      have quiet: "list_all (\<lambda>c. \<not> threw s0 c) (started n sys)" .
      have "ran s' = ran s @ (started n sys @ tr)" using tr(1) ran1 by simp
      moreover have "list_all (\<lambda>c. \<not> threw s0 c) (butlast (started n sys @ tr))"
      proof (cases "tr = []")
        case True
        with quiet show ?thesis by (auto simp: list_all_iff dest: in_set_butlastD)
      next
        case False
        with quiet tr(3) show ?thesis by (simp add: butlast_append)
      qed
      moreover have "r = None \<longrightarrow> list_all (\<lambda>c. \<not> threw s0 c) (started n sys @ tr)"
        using quiet tr(4) by simp
      moreover have "\<forall>e. r = Some e \<longrightarrow> started n sys @ tr \<noteq> []
          \<and> fst (last (started n sys @ tr)) = e \<and> threw s0 (last (started n sys @ tr))"
        using tr(5) by auto
      ultimately show ?thesis using tr(2) by blast
    qed
  qed
qed

lemma tick_trace:
  assumes "deltaTime t \<noteq> None" "SystemManager_update s (Some t) = (s', r)"
  shows "\<exists>tr. ran s' = ran s @ tr
      \<and> list_all (\<lambda>c. \<not> threw s c) (butlast tr)
      \<and> (r = None \<longrightarrow> list_all (\<lambda>c. \<not> threw s c) tr)
      \<and> (\<forall>e. r = Some e \<longrightarrow> tr \<noteq> [] \<and> fst (last tr) = e \<and> threw s (last tr))"
proof -
  from assms have l: "update_loop (ticked s) (executionOrder s) = (s', r)"
    by (simp add: SystemManager_update_valid)
  have th: "threw (ticked s) = threw s" by (simp add: fun_eq_iff threw_def ticked_def)
  from update_loop_trace [OF registered_in_refl l] show ?thesis
    unfolding th by (auto simp: ticked_def)
qed

text \<open>
  Claim C8. In \<^verbatim>\<open>SystemManager.update(time)\<close> with a valid \<open>time\<close>: when the loop comes to a
  system \<open>n\<close> that is present, initialized and active and one of its callbacks \<^verbatim>\<open>preUpdate\<close>,
  \<^verbatim>\<open>update\<close>, \<^verbatim>\<open>postUpdate\<close> throws, the call ends with that error re-thrown, and the callbacks
  started after the loop came to \<open>n\<close> are those of \<open>n\<close> up to the one that throws: the
  callbacks of \<open>n\<close> behind it and the systems after \<open>n\<close> are not run. Over the whole tick, a
  callback that was started and throws is the last one started, and the tick ends with the
  error of its system re-thrown; a tick in which no started callback throws runs to
  the end of the execution order. When \<open>n\<close> is missing, uninitialized or inactive it is
  skipped and the loop goes on with the systems after it. Once the loop has thrown,
  whatever follows in the execution order has no effect on the outcome.
\<close>

theorem update_fail_fast:
  "(deltaTime t \<noteq> None \<and> executionOrder s = pre @ n # post
      \<and> update_loop (ticked s) pre = (s1, None)
      \<and> executed s1 n \<and> map_of (systems s1) n = Some sys \<and> throwing sys
    \<longrightarrow> (\<exists>s2. SystemManager_update s (Some t) = (s2, Some n)
           \<and> ran s2 = ran s1 @ started n sys))
   \<and> (callback_throws (preUpdate sys) \<longrightarrow> started n sys = [(n, ''preUpdate'')])
   \<and> (\<not> callback_throws (preUpdate sys) \<and> callback_throws (update sys)
      \<longrightarrow> started n sys = call_of n ''preUpdate'' (preUpdate sys) @ [(n, ''update'')])
   \<and> (\<not> callback_throws (preUpdate sys) \<and> \<not> callback_throws (update sys)
        \<and> callback_throws (postUpdate sys)
      \<longrightarrow> started n sys = call_of n ''preUpdate'' (preUpdate sys)
            @ call_of n ''update'' (update sys) @ [(n, ''postUpdate'')])
   \<and> (deltaTime t \<noteq> None \<and> SystemManager_update s (Some t) = (s', r)
      \<longrightarrow> (\<exists>tr. ran s' = ran s @ tr
             \<and> list_all (\<lambda>c. \<not> threw s c) (butlast tr)
             \<and> (r = None \<longrightarrow> list_all (\<lambda>c. \<not> threw s c) tr)
             \<and> (\<forall>e. r = Some e \<longrightarrow> tr \<noteq> [] \<and> fst (last tr) = e \<and> threw s (last tr))))
   \<and> (deltaTime t \<noteq> None \<and> executionOrder s = pre @ n # post
      \<and> update_loop (ticked s) pre = (s1, None) \<and> \<not> executed s1 n
    \<longrightarrow> SystemManager_update s (Some t) = update_loop s1 post)
   \<and> (update_loop u xs = (u', Some e) \<longrightarrow> update_loop u (xs @ ys) = (u', Some e))"
proof (intro conjI impI)
  assume a: "deltaTime t \<noteq> None \<and> executionOrder s = pre @ n # post
      \<and> update_loop (ticked s) pre = (s1, None)
      \<and> executed s1 n \<and> map_of (systems s1) n = Some sys \<and> throwing sys"
  then obtain s2 where "update_loop s1 (n # post) = (s2, Some n)"
    and "ran s2 = ran s1 @ started n sys"
    using update_loop_rethrows [of s1 n sys post] by blast
  with a show "\<exists>s2. SystemManager_update s (Some t) = (s2, Some n)
           \<and> ran s2 = ran s1 @ started n sys"
    by (simp add: SystemManager_update_valid update_loop_append)
next
  assume "callback_throws (preUpdate sys)"
  then show "started n sys = [(n, ''preUpdate'')]" by (rule started_cases)
next
  assume "\<not> callback_throws (preUpdate sys) \<and> callback_throws (update sys)"
  then show "started n sys = call_of n ''preUpdate'' (preUpdate sys) @ [(n, ''update'')]"
    by (simp add: started_cases)
next
  assume "\<not> callback_throws (preUpdate sys) \<and> \<not> callback_throws (update sys)
        \<and> callback_throws (postUpdate sys)"
  then show "started n sys = call_of n ''preUpdate'' (preUpdate sys)
            @ call_of n ''update'' (update sys) @ [(n, ''postUpdate'')]"
    by (simp add: started_cases)
next
  assume "deltaTime t \<noteq> None \<and> SystemManager_update s (Some t) = (s', r)"
  then show "\<exists>tr. ran s' = ran s @ tr
             \<and> list_all (\<lambda>c. \<not> threw s c) (butlast tr)
             \<and> (r = None \<longrightarrow> list_all (\<lambda>c. \<not> threw s c) tr)
             \<and> (\<forall>e. r = Some e \<longrightarrow> tr \<noteq> [] \<and> fst (last tr) = e \<and> threw s (last tr))"
    using tick_trace [of t s s' r] by blast
next
  assume a: "deltaTime t \<noteq> None \<and> executionOrder s = pre @ n # post
      \<and> update_loop (ticked s) pre = (s1, None) \<and> \<not> executed s1 n"
  then have "update_loop s1 (n # post) = update_loop s1 post"
    using update_loop_skip [of s1 n post] by simp
  with a show "SystemManager_update s (Some t) = update_loop s1 post"
    by (simp add: SystemManager_update_valid update_loop_append)
next
  assume "update_loop u xs = (u', Some e)"
  then show "update_loop u (xs @ ys) = (u', Some e)" by (rule update_loop_stops)
qed

lemmas tick_eval =
  SystemManager_update_def Let_def demo_with_def demo_manager_def ticked_def run_system_def
  run_callback_def sys_ok_def sys_bad_def sys_bad_pre_def sys_bad_post_def quiet_def
  faulty_def executed_def throwing_def callback_throws_def started_def call_of_def

text \<open>
  The theorem on the concrete manager: \<open>input\<close> is inactive and \<open>ghost\<close> is missing, both
  are skipped. When \<open>physics\<close> throws in \<^verbatim>\<open>preUpdate\<close>, in \<^verbatim>\<open>update\<close> or in \<^verbatim>\<open>postUpdate\<close>, the tick
  ends there with the error of \<open>physics\<close>: the callbacks of \<open>physics\<close> behind the throwing one
  and the system \<open>render\<close> never run. Without \<open>physics\<close> in the order, \<open>render\<close> runs after the
  two skipped names.
\<close>

theorem update_fail_fast_witness:
  "throwing sys_bad_pre \<and> throwing sys_bad \<and> throwing sys_bad_post
   \<and> map_prod ran id (SystemManager_update (demo_with sys_bad_pre) (Some \<lparr>deltaTime = Some 16\<rparr>))
      = ([(''physics'', ''preUpdate'')], Some ''physics'')
   \<and> map_prod ran id (SystemManager_update (demo_with sys_bad) (Some \<lparr>deltaTime = Some 16\<rparr>))
      = ([(''physics'', ''preUpdate''), (''physics'', ''update'')], Some ''physics'')
   \<and> map_prod ran id (SystemManager_update (demo_with sys_bad_post) (Some \<lparr>deltaTime = Some 16\<rparr>))
      = ([(''physics'', ''preUpdate''), (''physics'', ''update''), (''physics'', ''postUpdate'')],
         Some ''physics'')
   \<and> map_prod ran id
        (SystemManager_update ((demo_with sys_bad)\<lparr>executionOrder := [''input'', ''ghost'', ''render'']\<rparr>)
           (Some \<lparr>deltaTime = Some 16\<rparr>))
      = ([(''render'', ''update'')], None)"
  using
    update_fail_fast [of "\<lparr>deltaTime = Some 16\<rparr>" "demo_with sys_bad_pre" "[''input'', ''ghost'']"
      "''physics''" "[''render'']" "ticked (demo_with sys_bad_pre)" sys_bad_pre]
    update_fail_fast [of "\<lparr>deltaTime = Some 16\<rparr>" "demo_with sys_bad" "[''input'', ''ghost'']"
      "''physics''" "[''render'']" "ticked (demo_with sys_bad)" sys_bad]
    update_fail_fast [of "\<lparr>deltaTime = Some 16\<rparr>" "demo_with sys_bad_post" "[''input'', ''ghost'']"
      "''physics''" "[''render'']" "ticked (demo_with sys_bad_post)" sys_bad_post]
    update_fail_fast [of "\<lparr>deltaTime = Some 16\<rparr>"
      "(demo_with sys_bad)\<lparr>executionOrder := [''input'', ''ghost'', ''render'']\<rparr>" "[''input'']"
      "''ghost''" "[''render'']"
      "ticked ((demo_with sys_bad)\<lparr>executionOrder := [''input'', ''ghost'', ''render'']\<rparr>)"]
  by (simp add: tick_eval)

section \<open>Entity store (src/ecs/entity-manager.js)\<close>

subsection \<open>JavaScript values\<close>

text \<open>
  The values that component fields and call arguments hold. Numbers are the integers;
  the special floating-point values are outside the model. An object with named
  properties (the \<^verbatim>\<open>data\<close> argument, the own properties of a component, a serialized
  record) is an association list in insertion order.
\<close>

datatype jsval =
    JUndefined
  | JNull
  | JBool bool
  | JNum int
  | JStr string
  | JArr "jsval list"

type_synonym jsobject = "(string \<times> jsval) list"

text \<open>Reading a property: \<^verbatim>\<open>undefined\<close> when the object has none of that name.\<close>

definition get_prop :: "jsobject \<Rightarrow> string \<Rightarrow> jsval" where
  "get_prop obj k = (case map_of obj k of None \<Rightarrow> JUndefined | Some v \<Rightarrow> v)"

fun truthy :: "jsval \<Rightarrow> bool" where
  "truthy JUndefined = False"
| "truthy JNull = False"
| "truthy (JBool b) = b"
| "truthy (JNum n) = (n \<noteq> 0)"
| "truthy (JStr s) = (s \<noteq> [])"
| "truthy (JArr xs) = True"

text \<open>
  The spread \<^verbatim>\<open>[...v]\<close> and the argument of \<^verbatim>\<open>new Set(v)\<close> need an iterable: an array, or a
  string (iterated by character). Anything else throws a TypeError, here \<open>None\<close>.
\<close>

fun spread :: "jsval \<Rightarrow> jsval list option" where
  "spread (JArr xs) = Some xs"
| "spread (JStr cs) = Some (map (\<lambda>c. JStr [c]) cs)"
| "spread v = None"

text \<open>
  A JavaScript \<^verbatim>\<open>Set\<close> is a list without repetition in insertion order: \<^verbatim>\<open>add\<close> appends an
  element that is not yet there, \<^verbatim>\<open>delete\<close> removes it.
\<close>

definition set_add :: "'a \<Rightarrow> 'a list \<Rightarrow> 'a list" where
  "set_add x xs = (if x \<in> set xs then xs else xs @ [x])"

definition set_delete :: "'a \<Rightarrow> 'a list \<Rightarrow> 'a list" where
  "set_delete x xs = removeAll x xs"

definition new_Set :: "'a list \<Rightarrow> 'a list" where
  "new_Set xs = fold set_add xs []"

text \<open>
  \<^verbatim>\<open>JSON.stringify\<close> writes an \<^verbatim>\<open>undefined\<close> array element as \<^verbatim>\<open>null\<close>. Two values have the
  same JSON text as an array exactly when both are arrays with the same elements up to
  that replacement.
\<close>

fun json_element :: "jsval \<Rightarrow> jsval" where
  "json_element JUndefined = JNull"
| "json_element (JArr xs) = JArr (map json_element xs)"
| "json_element v = v"

fun same_json_as_array :: "jsval \<Rightarrow> jsval list \<Rightarrow> bool" where
  "same_json_as_array (JArr old) new = (map json_element old = map json_element new)"
| "same_json_as_array v new = False"

text \<open>\<^verbatim>\<open>typeof t !== 'string' || t.trim() === ''\<close> for a string \<open>t\<close>: only white space.\<close>

definition is_space :: "char \<Rightarrow> bool" where
  "is_space c = (c \<in> set [CHR '' '', CHR 0x09, CHR 0x0A, CHR 0x0B, CHR 0x0C, CHR 0x0D])"

definition blank :: "string \<Rightarrow> bool" where
  "blank t = list_all is_space t"

subsection \<open>Components and the registry\<close>

text \<open>
  \<^verbatim>\<open>TransformComponent\<close> (src/components/transform-component.js). \<open>parent\<close> holds whatever the
  code stored there; \<open>children\<close> is a \<^verbatim>\<open>Set\<close>.
\<close>

record transform =
  position :: jsval
  rotation :: jsval
  scale :: jsval
  parent :: jsval
  children :: "jsval list"

text \<open>
  The constructor. \<^verbatim>\<open>data.position ? [...data.position] : [0, 0, 0]\<close> and its two siblings
  throw on a truthy value that is not iterable; \<^verbatim>\<open>parent\<close> is taken from the data unless it
  is \<^verbatim>\<open>undefined\<close>; \<^verbatim>\<open>children\<close> is \<^verbatim>\<open>new Set(data.children || [])\<close>.
\<close>

definition array_or :: "jsval \<Rightarrow> jsval list \<Rightarrow> jsval option" where
  "array_or v dflt = (if truthy v then map_option JArr (spread v) else Some (JArr dflt))"

definition new_TransformComponent :: "jsobject \<Rightarrow> transform option" where
  "new_TransformComponent data =
     (case array_or (get_prop data ''position'') [JNum 0, JNum 0, JNum 0] of
        None \<Rightarrow> None
      | Some p \<Rightarrow>
     (case array_or (get_prop data ''rotation'') [JNum 0, JNum 0, JNum 0] of
        None \<Rightarrow> None
      | Some r \<Rightarrow>
     (case array_or (get_prop data ''scale'') [JNum 1, JNum 1, JNum 1] of
        None \<Rightarrow> None
      | Some sc \<Rightarrow>
     (case (if truthy (get_prop data ''children'') then spread (get_prop data ''children'') else Some []) of
        None \<Rightarrow> None
      | Some cs \<Rightarrow>
          Some \<lparr>position = p, rotation = r, scale = sc,
                parent = (if get_prop data ''parent'' \<noteq> JUndefined then get_prop data ''parent'' else JNull),
                children = new_Set cs\<rparr>))))"

text \<open>
  \<^verbatim>\<open>TransformComponent.serialize()\<close>: the three spreads throw when a field was overwritten
  with a value that is not iterable.
\<close>

definition transform_serialize :: "transform \<Rightarrow> jsobject option" where
  "transform_serialize t =
     (case (spread (position t), spread (rotation t), spread (scale t)) of
        (Some p, Some r, Some sc) \<Rightarrow>
          Some [(''position'', JArr p), (''rotation'', JArr r), (''scale'', JArr sc),
                (''parent'', parent t)]
      | _ \<Rightarrow> None)"

text \<open>
  Any other component class, as the store sees it: its constructor (\<open>None\<close> when it
  throws) yields the own properties of the instance; \<open>isComponent\<close> says whether the
  instance passes \<^verbatim>\<open>instanceof Component\<close>; the hooks \<^verbatim>\<open>onAdd\<close> and \<^verbatim>\<open>onUpdate\<close> may change
  the instance's own properties or throw (\<open>None\<close>); \<^verbatim>\<open>serialize\<close> returns an object, or
  something that is not an object, or throws. The hook \<^verbatim>\<open>onRemove\<close> acts on an instance
  that the store discards right after and whose errors it catches, so it is left out.
\<close>

datatype serialized = Serialized jsobject | NotAnObject | SerializeThrows

record cclass =
  construct :: "jsobject \<Rightarrow> jsobject option"
  isComponent :: bool
  onAdd :: "int \<Rightarrow> jsobject \<Rightarrow> jsobject option"
  onUpdate :: "jsobject \<Rightarrow> jsobject \<Rightarrow> jsobject option"
  serialize_fields :: "jsobject \<Rightarrow> serialized"

text \<open>
  The registry, read only by the store. The name \<^verbatim>\<open>transform\<close> is registered with
  \<^verbatim>\<open>TransformComponent\<close> (src/core.js) or not at all; every other name maps to a class.
\<close>

record registry =
  transformRegistered :: bool
  classes :: "string \<Rightarrow> cclass option"

datatype ctor = TransformCtor | ClassCtor cclass

definition registry_get :: "registry \<Rightarrow> string \<Rightarrow> ctor option" where
  "registry_get reg t =
     (if t = ''transform'' then (if transformRegistered reg then Some TransformCtor else None)
      else map_option ClassCtor (classes reg t))"

datatype component = Transform transform | Instance jsobject

subsection \<open>The store\<close>

text \<open>
  The inner \<^verbatim>\<open>Map\<close> of an entity: the slot of the \<^verbatim>\<open>transform\<close> component, and the
  components of the other types in insertion order. (The code keeps one \<^verbatim>\<open>Map\<close> for both;
  it reads the position of the key \<^verbatim>\<open>transform\<close> among the others only to order the
  components it lists.)
\<close>

record components =
  transformSlot :: "transform option"
  others :: "(string \<times> jsobject) list"

datatype event =
    EntityRemoved int
  | ComponentAdded int string component bool jsval
  | ComponentRemoved int string
  | EntityUpdated int string jsobject bool jsval
  | EntityHierarchyChanged int jsval jsval jsval
  | SceneImported
  | SceneCleared

text \<open>
  The fields of \<^verbatim>\<open>EntityManager\<close>; \<open>events\<close> is the log of what was passed to
  \<^verbatim>\<open>eventEmitter.emit\<close>, oldest first. Listeners are taken not to call back into the store.
\<close>

record store =
  nextEntityId :: int
  entities :: "int list"
  entityComponents :: "int \<Rightarrow> components option"
  componentEntityMap :: "string \<Rightarrow> int list option"
  events :: "event list"

definition new_EntityManager :: store where
  "new_EntityManager =
     \<lparr>nextEntityId = 1, entities = [], entityComponents = (\<lambda>_. None),
      componentEntityMap = (\<lambda>_. None), events = []\<rparr>"

definition emit :: "event \<Rightarrow> store \<Rightarrow> store" where
  "emit e s = s\<lparr>events := events s @ [e]\<rparr>"

definition hasEntity :: "store \<Rightarrow> int \<Rightarrow> bool" where
  "hasEntity s entityId = (entityId \<in> set (entities s))"

text \<open>\<^verbatim>\<open>hasEntity\<close> on a value read from a component: false unless it is a number.\<close>

fun hasEntity_val :: "store \<Rightarrow> jsval \<Rightarrow> bool" where
  "hasEntity_val s (JNum n) = hasEntity s n"
| "hasEntity_val s v = False"

definition lookup_component :: "components \<Rightarrow> string \<Rightarrow> component option" where
  "lookup_component m t =
     (if t = ''transform'' then map_option Transform (transformSlot m)
      else map_option Instance (map_of (others m) t))"

definition getComponent :: "store \<Rightarrow> int \<Rightarrow> string \<Rightarrow> component option" where
  "getComponent s entityId t =
     (if hasEntity s entityId
      then (case entityComponents s entityId of None \<Rightarrow> None | Some m \<Rightarrow> lookup_component m t)
      else None)"

definition hasComponent :: "store \<Rightarrow> int \<Rightarrow> string \<Rightarrow> bool" where
  "hasComponent s entityId t =
     (if hasEntity s entityId
      then (case entityComponents s entityId of
              None \<Rightarrow> False
            | Some m \<Rightarrow> lookup_component m t \<noteq> None)
      else False)"

definition getEntitiesWithComponent :: "store \<Rightarrow> string \<Rightarrow> int list" where
  "getEntitiesWithComponent s t =
     (if blank t then []
      else (case componentEntityMap s t of None \<Rightarrow> [] | Some ids \<Rightarrow> ids))"

text \<open>\<^verbatim>\<open>getComponent(id, 'transform')\<close>, for an id that is a number and for any value.\<close>

definition getTransform :: "store \<Rightarrow> int \<Rightarrow> transform option" where
  "getTransform s entityId =
     (if hasEntity s entityId
      then (case entityComponents s entityId of None \<Rightarrow> None | Some m \<Rightarrow> transformSlot m)
      else None)"

fun getTransform_val :: "store \<Rightarrow> jsval \<Rightarrow> transform option" where
  "getTransform_val s (JNum n) = getTransform s n"
| "getTransform_val s v = None"

definition getChildren :: "store \<Rightarrow> int \<Rightarrow> jsval list" where
  "getChildren s entityId =
     (case getTransform s entityId of None \<Rightarrow> [] | Some t \<Rightarrow> children t)"

text \<open>
  A method call on the transform object of an entity changes that object in place: the
  model rewrites the slot it is read from.
\<close>

definition update_transform :: "int \<Rightarrow> (transform \<Rightarrow> transform) \<Rightarrow> store \<Rightarrow> store" where
  "update_transform entityId f s =
     (case entityComponents s entityId of
        None \<Rightarrow> s
      | Some m \<Rightarrow>
          s\<lparr>entityComponents :=
              (entityComponents s)(entityId \<mapsto> m\<lparr>transformSlot := map_option f (transformSlot m)\<rparr>)\<rparr>)"

fun update_transform_val :: "jsval \<Rightarrow> (transform \<Rightarrow> transform) \<Rightarrow> store \<Rightarrow> store" where
  "update_transform_val (JNum n) f s = (if hasEntity s n then update_transform n f s else s)"
| "update_transform_val v f s = s"

definition addComponentToEntityMap :: "int \<Rightarrow> string \<Rightarrow> store \<Rightarrow> store" where
  "addComponentToEntityMap entityId t s =
     s\<lparr>componentEntityMap :=
         (componentEntityMap s)(t \<mapsto>
            set_add entityId (case componentEntityMap s t of None \<Rightarrow> [] | Some ids \<Rightarrow> ids))\<rparr>"

definition removeComponentFromEntityMap :: "int \<Rightarrow> string \<Rightarrow> store \<Rightarrow> store" where
  "removeComponentFromEntityMap entityId t s =
     (case componentEntityMap s t of
        None \<Rightarrow> s
      | Some ids \<Rightarrow> s\<lparr>componentEntityMap := (componentEntityMap s)(t \<mapsto> set_delete entityId ids)\<rparr>)"

subsection \<open>createEntity\<close>

datatype error = MaximumEntityIdReached

definition MAX_SAFE_INTEGER :: int where
  "MAX_SAFE_INTEGER = 9007199254740991"

text \<open>
  The \<^verbatim>\<open>while\<close> loop of \<^verbatim>\<open>createEntity\<close>: from \<open>id\<close> upwards to the first id that is not live;
  \<open>None\<close> when the loop throws because the id passed \<^verbatim>\<open>Number.MAX_SAFE_INTEGER\<close>.
\<close>

function next_free_id :: "int list \<Rightarrow> int \<Rightarrow> int option" where
  "next_free_id live i =
     (if i \<in> set live
      then (if i + 1 > MAX_SAFE_INTEGER then None else next_free_id live (i + 1))
      else Some i)"
  by pat_completeness auto
termination
  by (relation "measure (\<lambda>(live, i). nat (MAX_SAFE_INTEGER + 1 - i))") auto

definition empty_components :: components where
  "empty_components = \<lparr>transformSlot = None, others = []\<rparr>"

definition createEntity :: "store \<Rightarrow> error + int \<times> store" where
  "createEntity s =
     (case next_free_id (entities s) (nextEntityId s) of
        None \<Rightarrow> Inl MaximumEntityIdReached
      | Some i \<Rightarrow>
          Inr (i, s\<lparr>nextEntityId := i + 1,
                    entities := set_add i (entities s),
                    entityComponents := (entityComponents s)(i \<mapsto> empty_components)\<rparr>))"

subsection \<open>setParent\<close>

text \<open>
  The loop that checks for a circular dependency, started at \<^verbatim>\<open>newParentId\<close>: \<open>Some True\<close>
  when it reaches \<^verbatim>\<open>null\<close>, \<open>Some False\<close> when it meets \<^verbatim>\<open>entityId\<close> or an ancestor without
  a transform. On a parent chain that runs into a cycle without \<^verbatim>\<open>entityId\<close> the loop
  never ends: the value is \<open>None\<close>.
\<close>

partial_function (option) ancestor_check :: "store \<Rightarrow> int \<Rightarrow> jsval \<Rightarrow> bool option" where
  "ancestor_check s entityId ancestorId =
     (if ancestorId = JNull then Some True
      else if ancestorId = JNum entityId then Some False
      else (case getTransform_val s ancestorId of
              None \<Rightarrow> Some False
            | Some t \<Rightarrow> ancestor_check s entityId (parent t)))"

fun is_number :: "jsval \<Rightarrow> bool" where
  "is_number (JNum n) = True"
| "is_number v = False"

text \<open>
  \<^verbatim>\<open>setParent(entityId, newParentId, source)\<close>: the new store and the boolean result, \<open>None\<close>
  when the circular-dependency loop does not end. \<^verbatim>\<open>entityId\<close> is a number; \<^verbatim>\<open>newParentId\<close>
  is any value (addComponent passes on what its caller supplied).
\<close>

definition setParent :: "store \<Rightarrow> int \<Rightarrow> jsval \<Rightarrow> jsval \<Rightarrow> (store \<times> bool) option" where
  "setParent s entityId newParentId source =
     (if newParentId \<noteq> JNull \<and> \<not> is_number newParentId then Some (s, False)
      else if \<not> hasEntity s entityId then Some (s, False)
      else if newParentId \<noteq> JNull \<and> \<not> hasEntity_val s newParentId then Some (s, False)
      else if JNum entityId = newParentId then Some (s, False)
      else
        (case getTransform s entityId of
           None \<Rightarrow> Some (s, False)
         | Some childTransform \<Rightarrow>
             if newParentId \<noteq> JNull \<and> getTransform_val s newParentId = None then Some (s, False)
             else if parent childTransform = newParentId then Some (s, True)
             else
               (case ancestor_check s entityId newParentId of
                  None \<Rightarrow> None
                | Some False \<Rightarrow> Some (s, False)
                | Some True \<Rightarrow>
                    let oldParentId = parent childTransform;
                        s1 = (if oldParentId \<noteq> JNull \<and> oldParentId \<noteq> newParentId
                              then update_transform_val oldParentId
                                     (\<lambda>t. t\<lparr>children := set_delete (JNum entityId) (children t)\<rparr>) s
                              else s);
                        s2 = (if newParentId \<noteq> JNull
                              then update_transform_val newParentId
                                     (\<lambda>t. t\<lparr>children := set_add (JNum entityId) (children t)\<rparr>) s1
                              else s1);
                        s3 = update_transform entityId (\<lambda>t. t\<lparr>parent := newParentId\<rparr>) s2;
                        s4 = emit (EntityHierarchyChanged entityId newParentId oldParentId source) s3;
                        s5 = emit (EntityUpdated entityId ''transform'' [(''parent'', newParentId)]
                                     False source) s4
                    in Some (s5, True))))"

subsection \<open>addComponent\<close>

text \<open>
  What the update loop of \<^verbatim>\<open>addComponent\<close> leaves in a property that held \<open>old\<close> when the
  data holds \<open>new\<close> for it: an array is copied in unless it has the same JSON text as the
  old value, anything else is assigned (assigning an equal value changes nothing).
\<close>

definition assigned :: "jsval \<Rightarrow> jsval \<Rightarrow> jsval" where
  "assigned old new =
     (case new of
        JArr xs \<Rightarrow> if same_json_as_array old xs then old else JArr xs
      | _ \<Rightarrow> new)"

text \<open>
  One round of the loop on a transform: \<^verbatim>\<open>parent\<close> and \<^verbatim>\<open>children\<close> are skipped (the
  first is handed to \<^verbatim>\<open>setParent\<close> after the loop), the three array props are assigned,
  a name that is not a property of the instance is skipped with a warning.
\<close>

definition transform_assign :: "string \<times> jsval \<Rightarrow> transform \<Rightarrow> transform" where
  "transform_assign kv t =
     (let k = fst kv; v = snd kv in
      if k = ''parent'' then t
      else if k = ''children'' then t
      else if k = ''position'' then t\<lparr>position := assigned (position t) v\<rparr>
      else if k = ''rotation'' then t\<lparr>rotation := assigned (rotation t) v\<rparr>
      else if k = ''scale'' then t\<lparr>scale := assigned (scale t) v\<rparr>
      else t)"

definition instance_assign :: "string \<times> jsval \<Rightarrow> jsobject \<Rightarrow> jsobject" where
  "instance_assign kv props =
     (case map_of props (fst kv) of
        None \<Rightarrow> props
      | Some old \<Rightarrow> AList.update (fst kv) (assigned old (snd kv)) props)"

text \<open>\<^verbatim>\<open>this.entityComponents.get(entityId)?.set(type, component)\<close> and \<^verbatim>\<open>?.delete(type)\<close>.\<close>

definition store_component :: "int \<Rightarrow> string \<Rightarrow> component \<Rightarrow> store \<Rightarrow> store" where
  "store_component entityId t c s =
     (case entityComponents s entityId of
        None \<Rightarrow> s
      | Some m \<Rightarrow>
          s\<lparr>entityComponents := (entityComponents s)(entityId \<mapsto>
              (case c of
                 Transform tr \<Rightarrow> m\<lparr>transformSlot := Some tr\<rparr>
               | Instance props \<Rightarrow> m\<lparr>others := AList.update t props (others m)\<rparr>))\<rparr>)"

definition delete_component :: "int \<Rightarrow> string \<Rightarrow> store \<Rightarrow> store" where
  "delete_component entityId t s =
     (case entityComponents s entityId of
        None \<Rightarrow> s
      | Some m \<Rightarrow>
          s\<lparr>entityComponents := (entityComponents s)(entityId \<mapsto>
              (if t = ''transform'' then m\<lparr>transformSlot := None\<rparr>
               else m\<lparr>others := AList.delete t (others m)\<rparr>))\<rparr>)"

text \<open>The two events at the end of \<^verbatim>\<open>addComponent\<close>.\<close>

definition announce_added ::
  "int \<Rightarrow> string \<Rightarrow> component \<Rightarrow> bool \<Rightarrow> jsobject \<Rightarrow> jsval \<Rightarrow> store \<Rightarrow> store" where
  "announce_added entityId t c isNew componentData source s =
     emit (EntityUpdated entityId t componentData False source)
       (emit (ComponentAdded entityId t c isNew source) s)"

text \<open>
  The branch for an entity that has no component of the type yet. The data goes to the
  constructor as it is, the \<^verbatim>\<open>parent\<close> and \<^verbatim>\<open>children\<close> of a transform included;
  \<^verbatim>\<open>requiresHierarchyUpdate\<close> stays false on this branch, so \<^verbatim>\<open>setParent\<close> is not called.
\<close>

definition add_new ::
  "ctor \<Rightarrow> store \<Rightarrow> int \<Rightarrow> string \<Rightarrow> jsobject \<Rightarrow> jsval \<Rightarrow> store \<times> component option" where
  "add_new k s entityId t componentData source =
     (case k of
        TransformCtor \<Rightarrow>
          (case new_TransformComponent componentData of
             None \<Rightarrow> (s, None)
           | Some tr \<Rightarrow>
               let s1 = store_component entityId t (Transform tr) s;
                   s2 = addComponentToEntityMap entityId t s1
               in (announce_added entityId t (Transform tr) True componentData source s2,
                   Some (Transform tr)))
      | ClassCtor c \<Rightarrow>
          (case construct c componentData of
             None \<Rightarrow> (s, None)
           | Some props \<Rightarrow>
               if \<not> isComponent c then (s, None)
               else
                 let s1 = store_component entityId t (Instance props) s;
                     s2 = addComponentToEntityMap entityId t s1
                 in (case onAdd c entityId props of
                       None \<Rightarrow>
                         (removeComponentFromEntityMap entityId t (delete_component entityId t s2),
                          None)
                     | Some props' \<Rightarrow>
                         (announce_added entityId t (Instance props') True componentData source
                            (store_component entityId t (Instance props') s2),
                          Some (Instance props')))))"

text \<open>
  The branch for an existing transform: the loop, then \<^verbatim>\<open>setParent\<close> when the data has a
  \<^verbatim>\<open>parent\<close> that differs from the current one (its result is only logged).
\<close>

definition update_existing_transform ::
  "store \<Rightarrow> int \<Rightarrow> transform \<Rightarrow> jsobject \<Rightarrow> jsval \<Rightarrow> (store \<times> component option) option" where
  "update_existing_transform s entityId tr componentData source =
     (let tr' = fold transform_assign componentData tr;
          s1 = update_transform entityId (\<lambda>_. tr') s;
          requiresHierarchyUpdate = (''parent'' \<in> fst ` set componentData);
          targetParent = get_prop componentData ''parent''
      in case (if requiresHierarchyUpdate \<and> parent tr' \<noteq> targetParent
               then map_option fst (setParent s1 entityId targetParent source)
               else Some s1) of
           None \<Rightarrow> None
         | Some s2 \<Rightarrow>
             (case getTransform s2 entityId of
                None \<Rightarrow> Some (s2, None)
              | Some cur \<Rightarrow>
                  Some (announce_added entityId ''transform'' (Transform cur) False
                          componentData source s2,
                        Some (Transform cur))))"

definition update_existing_instance ::
  "cclass \<Rightarrow> store \<Rightarrow> int \<Rightarrow> string \<Rightarrow> jsobject \<Rightarrow> jsobject \<Rightarrow> jsval
     \<Rightarrow> store \<times> component option" where
  "update_existing_instance c s entityId t props componentData source =
     (let props' = fold instance_assign componentData props in
      case onUpdate c componentData props' of
        None \<Rightarrow> (store_component entityId t (Instance props') s, None)
      | Some props'' \<Rightarrow>
          (announce_added entityId t (Instance props'') False componentData source
             (store_component entityId t (Instance props'') s),
           Some (Instance props'')))"

text \<open>
  \<^verbatim>\<open>addComponent(entityId, componentType, data)\<close>: the new store and the component returned
  (\<open>None\<close> for \<^verbatim>\<open>null\<close>); the outer \<open>None\<close> stands for a call that does not return because
  \<^verbatim>\<open>setParent\<close> does not.
\<close>

definition addComponent ::
  "registry \<Rightarrow> store \<Rightarrow> int \<Rightarrow> string \<Rightarrow> jsobject \<Rightarrow> (store \<times> component option) option" where
  "addComponent reg s entityId componentType data =
     (if blank componentType then Some (s, None)
      else if \<not> hasEntity s entityId then Some (s, None)
      else
        (case registry_get reg componentType of
           None \<Rightarrow> Some (s, None)
         | Some k \<Rightarrow>
             let source = (if truthy (get_prop data ''source'') then get_prop data ''source''
                           else JStr ''unknown'');
                 componentData = AList.delete ''source'' data
             in (case getComponent s entityId componentType of
                   None \<Rightarrow> Some (add_new k s entityId componentType componentData source)
                 | Some (Transform tr) \<Rightarrow>
                     update_existing_transform s entityId tr componentData source
                 | Some (Instance props) \<Rightarrow>
                     (case k of
                        ClassCtor c \<Rightarrow>
                          Some (update_existing_instance c s entityId componentType props
                                  componentData source)
                      | TransformCtor \<Rightarrow> Some (s, None)))))"

subsection \<open>removeComponent\<close>

text \<open>Running a list of steps, each of which may fail to return.\<close>

fun fold_option :: "('a \<Rightarrow> 's \<Rightarrow> 's option) \<Rightarrow> 'a list \<Rightarrow> 's \<Rightarrow> 's option" where
  "fold_option f [] s = Some s"
| "fold_option f (x # xs) s = (case f x s of None \<Rightarrow> None | Some s' \<Rightarrow> fold_option f xs s')"

text \<open>A child of a transform that is removed becomes a root, if it is a live entity.\<close>

definition detach_child :: "jsval \<Rightarrow> store \<Rightarrow> store option" where
  "detach_child childId s =
     (case childId of
        JNum c \<Rightarrow>
          if hasEntity s c
          then map_option fst (setParent s c JNull (JStr ''removeComponentCleanup''))
          else Some s
      | _ \<Rightarrow> Some s)"

text \<open>
  The hierarchy clean-up of \<^verbatim>\<open>removeComponent\<close> for a transform: its children become
  roots, then the entity is taken out of the child set of its current parent.
\<close>

definition detach_transform :: "store \<Rightarrow> int \<Rightarrow> transform \<Rightarrow> store option" where
  "detach_transform s entityId component =
     (case fold_option detach_child (children component) s of
        None \<Rightarrow> None
      | Some s1 \<Rightarrow>
          let currentParentId =
                (case getTransform s1 entityId of None \<Rightarrow> JNull | Some cur \<Rightarrow> parent cur)
          in Some (if currentParentId \<noteq> JNull
                   then update_transform_val currentParentId
                          (\<lambda>t. t\<lparr>children := set_delete (JNum entityId) (children t)\<rparr>) s1
                   else s1))"

definition removeComponent :: "store \<Rightarrow> int \<Rightarrow> string \<Rightarrow> (store \<times> bool) option" where
  "removeComponent s entityId componentType =
     (if blank componentType then Some (s, False)
      else if \<not> hasEntity s entityId then Some (s, False)
      else
        (case entityComponents s entityId of
           None \<Rightarrow> Some (s, False)
         | Some m \<Rightarrow>
             if lookup_component m componentType = None then Some (s, False)
             else
               (case (case (if componentType = ''transform'' then transformSlot m else None) of
                        None \<Rightarrow> Some s
                      | Some component \<Rightarrow> detach_transform s entityId component) of
                  None \<Rightarrow> None
                | Some s2 \<Rightarrow>
                    Some (emit (EntityUpdated entityId componentType [] True
                                  (JStr ''removeComponent''))
                            (emit (ComponentRemoved entityId componentType)
                               (removeComponentFromEntityMap entityId componentType
                                  (delete_component entityId componentType s2))),
                          True))))"

subsection \<open>removeEntity and clear\<close>

definition component_types :: "components \<Rightarrow> string list" where
  "component_types m =
     (if transformSlot m = None then [] else [''transform'']) @ map fst (others m)"

text \<open>
  The end of \<^verbatim>\<open>removeEntity\<close>: the entity leaves the index sets of its component types, its
  component map and the live set.
\<close>

definition purge :: "int \<Rightarrow> store \<Rightarrow> store" where
  "purge entityId s =
     (let s4 = (case entityComponents s entityId of
                  None \<Rightarrow> s
                | Some m \<Rightarrow> fold (removeComponentFromEntityMap entityId) (component_types m) s)
      in s4\<lparr>entityComponents := (entityComponents s4)(entityId := None),
             entities := set_delete entityId (entities s4)\<rparr>)"

text \<open>
  \<^verbatim>\<open>_cleanupEntityFromComponentMap\<close> and the \<^verbatim>\<open>catch\<close> block that closes \<^verbatim>\<open>removeEntity\<close>: the
  entity leaves the component maps, the live set and every index set.
\<close>

definition cleanupEntityFromComponentMap :: "int \<Rightarrow> store \<Rightarrow> store" where
  "cleanupEntityFromComponentMap entityId s =
     s\<lparr>componentEntityMap := (\<lambda>t. map_option (set_delete entityId) (componentEntityMap s t))\<rparr>"

definition forced_cleanup :: "int \<Rightarrow> store \<Rightarrow> store" where
  "forced_cleanup entityId s =
     cleanupEntityFromComponentMap entityId
       (s\<lparr>entityComponents := (entityComponents s)(entityId := None),
          entities := set_delete entityId (entities s)\<rparr>)"

text \<open>
  \<^verbatim>\<open>setParent(entityId, null, 'removeEntityCleanup')\<close>. With \<^verbatim>\<open>null\<close> as the new parent the
  loop of \<^verbatim>\<open>setParent\<close> is not entered and the call returns (lemma \<open>setParent_null_returns\<close>
  below); \<^verbatim>\<open>removeEntity\<close> only logs its result.
\<close>

definition detach_from_parent :: "store \<Rightarrow> int \<Rightarrow> store" where
  "detach_from_parent s entityId =
     (case setParent s entityId JNull (JStr ''removeEntityCleanup'') of
        None \<Rightarrow> s
      | Some res \<Rightarrow> fst res)"

text \<open>
  The loop of \<^verbatim>\<open>removeEntity\<close> over the children, with its \<^verbatim>\<open>try\<close> and \<^verbatim>\<open>catch\<close>: \<open>rm\<close> is the
  recursive call, \<open>None\<close> when it throws; the \<^verbatim>\<open>catch\<close> block logs and the loop goes on with the
  next child.
\<close>

definition remove_children ::
  "(store \<Rightarrow> int \<Rightarrow> (store \<times> bool) option) \<Rightarrow> jsval list \<Rightarrow> store \<Rightarrow> store" where
  "remove_children rm childrenIds s =
     fold (\<lambda>childId s'.
             case childId of
               JNum c \<Rightarrow>
                 if hasEntity s' c
                 then (case rm s' c of None \<Rightarrow> s' | Some res \<Rightarrow> fst res)
                 else s'
             | _ \<Rightarrow> s')
       childrenIds s"

text \<open>
  The outer \<^verbatim>\<open>try\<close> block of \<^verbatim>\<open>removeEntity\<close> and its \<^verbatim>\<open>catch\<close> block, for a live entity. \<open>stop\<close>
  says whether and where the body is left by an exception: \<open>None\<close> when it runs to its end
  (the entity is removed, \<^verbatim>\<open>entityRemoved\<close> is emitted, the result is true); \<open>Some 0\<close> when it
  throws before the hierarchy clean-up; \<open>Some (Suc k)\<close> when it throws after the entity
  was detached from its parent and the first \<open>k\<close> children were handled. In the last two
  cases the \<^verbatim>\<open>catch\<close> block deletes the entity from the maps, the live set and the index
  sets, and the result is false. An exception later in the body leaves the same store as
  one after the last child, since the \<^verbatim>\<open>catch\<close> block deletes all that the rest of the body
  changes (lemma \<open>forced_cleanup_absorbs\<close> below). \<^verbatim>\<open>component.onRemove\<close> is called inside a
  \<^verbatim>\<open>try\<close> block of its own, on a component that is dropped with the entity.
\<close>

definition frame_body ::
  "(store \<Rightarrow> int \<Rightarrow> (store \<times> bool) option) \<Rightarrow> nat option \<Rightarrow> store \<Rightarrow> int \<Rightarrow> store \<times> bool" where
  "frame_body rm stop s entityId =
     (let s3 =
            (case getTransform s entityId of
               None \<Rightarrow> s
             | Some tr \<Rightarrow>
                 if stop = Some 0 then s
                 else
                   let s1 = (if parent tr \<noteq> JNull then detach_from_parent s entityId else s);
                       childrenIds = getChildren s1 entityId;
                       s2 = remove_children rm
                              (case stop of
                                 None \<Rightarrow> childrenIds
                               | Some k \<Rightarrow> take (k - 1) childrenIds) s1
                   in if stop = None
                      then update_transform entityId
                             (\<lambda>t. t\<lparr>children := [], parent := JNull\<rparr>) s2
                      else s2)
      in if stop = None
         then (emit (EntityRemoved entityId) (purge entityId s3), True)
         else (forced_cleanup entityId s3, False))"

text \<open>
  Where the engine's stack ends. \<^verbatim>\<open>removeEntity\<close> calls itself on the children, and on a store
  where an entity is its own descendant the calls nest until the engine has no room for
  another one: that call throws \<^verbatim>\<open>RangeError\<close>. The model takes the number of nested calls
  that the stack has room for, beyond the call a user of the store makes, as \<open>depth\<close>. The
  nested call for which no room is left throws before it does anything. A nested call
  runs close to that limit, and the calls its body makes may meet the limit too: for such a
  call the plan \<open>fl\<close> says, from the room left, the store and the entity, whether and where
  its body throws. The call that a user of the store makes has the room its caller left and
  is not interrupted.
\<close>

type_synonym interruptions = "nat \<Rightarrow> store \<Rightarrow> int \<Rightarrow> nat option"

definition uninterrupted :: interruptions where
  "uninterrupted = (\<lambda>depth s entityId. None)"

text \<open>
  \<^verbatim>\<open>removeEntity(childId)\<close> as the loop over the children calls it. The result is \<open>None\<close> when the
  call throws because the stack has no room for it.
\<close>

fun remove_nested :: "interruptions \<Rightarrow> nat \<Rightarrow> store \<Rightarrow> int \<Rightarrow> (store \<times> bool) option" where
  "remove_nested fl 0 s entityId = None"
| "remove_nested fl (Suc depth) s entityId =
     (if \<not> hasEntity s entityId then Some (s, False)
      else Some (frame_body (\<lambda>s' c. remove_nested fl depth s' c) (fl depth s entityId)
                   s entityId))"

text \<open>
  \<^verbatim>\<open>removeEntity(entityId)\<close> as a user of the store calls it, with an id that is a number:
  the store it leaves and the boolean it returns.
\<close>

definition removeEntity :: "interruptions \<Rightarrow> nat \<Rightarrow> store \<Rightarrow> int \<Rightarrow> store \<times> bool" where
  "removeEntity fl depth s entityId =
     (if \<not> hasEntity s entityId then (s, False)
      else frame_body (remove_nested fl depth) None s entityId)"

text \<open>
  \<^verbatim>\<open>clear()\<close>: one \<^verbatim>\<open>removeEntity\<close> per entity that was live when the call began, then the maps
  are emptied and the counter is reset.
\<close>

definition clear :: "interruptions \<Rightarrow> nat \<Rightarrow> store \<Rightarrow> store" where
  "clear fl depth s =
     (let s1 = fold (\<lambda>i s'. fst (removeEntity fl depth s' i)) (entities s) s
      in emit SceneCleared
           (s1\<lparr>entities := [], entityComponents := (\<lambda>_. None),
                componentEntityMap := (\<lambda>_. None), nextEntityId := 1\<rparr>))"

subsection \<open>serialize and deserialize\<close>

text \<open>
  The scene document, as \<^verbatim>\<open>JSON.parse\<close> returns it: the list \<^verbatim>\<open>entities\<close>, whose entries are
  \<open>None\<close> for \<^verbatim>\<open>null\<close> and a record otherwise. \<open>rec_id\<close> is \<open>None\<close> when the entry has no number
  as \<^verbatim>\<open>id\<close>; the data of a component is \<open>None\<close> when it is \<^verbatim>\<open>null\<close> or not an object.
\<close>

record entity_record =
  rec_id :: "int option"
  rec_components :: "(string \<times> jsobject option) list"

type_synonym scene = "entity_record option list"

text \<open>
  What \<^verbatim>\<open>JSON.stringify\<close> followed by \<^verbatim>\<open>JSON.parse\<close> makes of an object: a property whose
  value is \<^verbatim>\<open>undefined\<close> is dropped, an \<^verbatim>\<open>undefined\<close> array element becomes \<^verbatim>\<open>null\<close>.
\<close>

definition json_object :: "jsobject \<Rightarrow> jsobject" where
  "json_object obj = map (\<lambda>kv. (fst kv, json_element (snd kv))) (filter (\<lambda>kv. snd kv \<noteq> JUndefined) obj)"

text \<open>
  \<^verbatim>\<open>getEntityState\<close>: the record of one entity. A component whose \<^verbatim>\<open>serialize()\<close> throws or
  returns no object is recorded as the empty object.
\<close>

definition serialized_instance :: "registry \<Rightarrow> string \<times> jsobject \<Rightarrow> (string \<times> jsobject) list" where
  "serialized_instance reg entry =
     (case classes reg (fst entry) of
        None \<Rightarrow> []
      | Some c \<Rightarrow>
          [(fst entry,
            (case serialize_fields c (snd entry) of
               Serialized obj \<Rightarrow> obj
             | NotAnObject \<Rightarrow> []
             | SerializeThrows \<Rightarrow> []))])"

definition getEntityState :: "registry \<Rightarrow> store \<Rightarrow> int \<Rightarrow> (string \<times> jsobject) list option" where
  "getEntityState reg s entityId =
     (if \<not> hasEntity s entityId then None
      else
        (case entityComponents s entityId of
           None \<Rightarrow> Some []
         | Some m \<Rightarrow>
             Some ((case transformSlot m of
                      None \<Rightarrow> []
                    | Some tr \<Rightarrow>
                        [(''transform'',
                          (case transform_serialize tr of None \<Rightarrow> [] | Some obj \<Rightarrow> obj))])
                   @ concat (map (serialized_instance reg) (others m)))))"


text \<open>
  \<^verbatim>\<open>_restoreSingleEntityBase\<close>: an id that is already live (it occurs twice in the document)
  loses its components; a new id becomes live and pushes the counter.
\<close>

definition restoreSingleEntityBase :: "store \<Rightarrow> int \<Rightarrow> store option" where
  "restoreSingleEntityBase s i =
     (if hasEntity s i then
        (case (case entityComponents s i of
                 None \<Rightarrow> Some s
               | Some m \<Rightarrow>
                   fold_option (\<lambda>t s'. map_option fst (removeComponent s' i t))
                     (component_types m) s) of
           None \<Rightarrow> None
         | Some s1 \<Rightarrow>
             Some (s1\<lparr>entityComponents := (entityComponents s1)(i \<mapsto> empty_components)\<rparr>))
      else
        Some (s\<lparr>entities := set_add i (entities s),
                entityComponents := (entityComponents s)(i \<mapsto> empty_components),
                nextEntityId := (if i \<ge> nextEntityId s then i + 1 else nextEntityId s)\<rparr>))"

text \<open>
  \<^verbatim>\<open>_restoreEntityComponents\<close>: one \<^verbatim>\<open>addComponent\<close> per entry of the record, with \<^verbatim>\<open>parent\<close> and
  \<^verbatim>\<open>children\<close> of a transform overwritten by \<^verbatim>\<open>undefined\<close>. The boolean is true when no entry
  failed.
\<close>

definition restore_data :: "string \<Rightarrow> jsobject \<Rightarrow> jsobject" where
  "restore_data t data =
     AList.update ''source'' (JStr ''deserialize'')
       (if t = ''transform''
        then AList.update ''children'' JUndefined (AList.update ''parent'' JUndefined data)
        else data)"

definition restore_component ::
  "registry \<Rightarrow> int \<Rightarrow> string \<times> jsobject option \<Rightarrow> store \<times> bool \<Rightarrow> (store \<times> bool) option" where
  "restore_component reg i entry acc =
     (case snd entry of
        None \<Rightarrow> Some (fst acc, False)
      | Some data \<Rightarrow>
          if registry_get reg (fst entry) = None then Some (fst acc, False)
          else
            (case addComponent reg (fst acc) i (fst entry) (restore_data (fst entry) data) of
               None \<Rightarrow> None
             | Some (s', None) \<Rightarrow> Some (s', False)
             | Some (s', Some c) \<Rightarrow> Some (s', snd acc)))"

definition restoreEntityComponents ::
  "registry \<Rightarrow> store \<Rightarrow> int \<Rightarrow> (string \<times> jsobject option) list \<Rightarrow> (store \<times> bool) option" where
  "restoreEntityComponents reg s i comps = fold_option (restore_component reg i) comps (s, True)"

text \<open>
  The state of the first pass: the store, \<^verbatim>\<open>highestId\<close>, the \<^verbatim>\<open>Set\<close> \<^verbatim>\<open>restoredEntityIds\<close>, and
  whether every record so far was restored.
\<close>

record pass1 =
  p_store :: store
  highestId :: int
  restoredEntityIds :: "int list"
  allRestored :: bool

definition restore_entity :: "registry \<Rightarrow> entity_record option \<Rightarrow> pass1 \<Rightarrow> pass1 option" where
  "restore_entity reg entry p =
     (case (case entry of None \<Rightarrow> None | Some r \<Rightarrow> map_option (\<lambda>i. (i, r)) (rec_id r)) of
        None \<Rightarrow> Some (p\<lparr>allRestored := False\<rparr>)
      | Some (i, r) \<Rightarrow>
          (case restoreSingleEntityBase (p_store p) i of
             None \<Rightarrow> None
           | Some s1 \<Rightarrow>
               (case restoreEntityComponents reg s1 i (rec_components r) of
                  None \<Rightarrow> None
                | Some (s2, True) \<Rightarrow>
                    Some (p\<lparr>p_store := s2, highestId := max (highestId p) i,
                           restoredEntityIds := set_add i (restoredEntityIds p)\<rparr>)
                | Some (s2, False) \<Rightarrow> Some (p\<lparr>p_store := s2, allRestored := False\<rparr>))))"

text \<open>
  \<^verbatim>\<open>data.entities.find(e => e.id === entityId)\<close>, which stands before the \<^verbatim>\<open>try\<close> block of the
  second pass: reading \<^verbatim>\<open>e.id\<close> of a \<^verbatim>\<open>null\<close> entry throws (\<open>None\<close>).
\<close>

fun find_record :: "int \<Rightarrow> scene \<Rightarrow> entity_record option option" where
  "find_record i [] = Some None"
| "find_record i (None # es) = None"
| "find_record i (Some r # es) = (if rec_id r = Some i then Some (Some r) else find_record i es)"

text \<open>
  The second pass for one restored id: the \<^verbatim>\<open>parent\<close> recorded in the first record with
  that id goes to \<^verbatim>\<open>setParent\<close>; a parent that is not a number or was not restored makes
  the entity a root and counts as an error. The boolean is true while no error occurred.
\<close>

definition rebuild_parent ::
  "scene \<Rightarrow> int list \<Rightarrow> int \<Rightarrow> store \<times> bool \<Rightarrow> (store \<times> bool) option" where
  "rebuild_parent doc restored i acc =
     (case find_record i doc of
        None \<Rightarrow> None
      | Some None \<Rightarrow> Some acc
      | Some (Some r) \<Rightarrow>
          (case map_of (rec_components r) ''transform'' of
             Some (Some transformData) \<Rightarrow>
               if ''parent'' \<in> fst ` set transformData then
                 let targetParentId = get_prop transformData ''parent'' in
                 if (targetParentId \<noteq> JNull \<and> \<not> is_number targetParentId)
                    \<or> (targetParentId \<noteq> JNull \<and> targetParentId \<notin> JNum ` set restored)
                 then map_option (\<lambda>res. (fst res, False))
                        (setParent (fst acc) i JNull (JStr ''deserialize''))
                 else map_option (\<lambda>res. (fst res, snd acc \<and> snd res))
                        (setParent (fst acc) i targetParentId (JStr ''deserialize''))
               else Some acc
           | _ \<Rightarrow> Some acc))"

text \<open>The loop that moves \<^verbatim>\<open>nextEntityId\<close> past live ids at the end of \<^verbatim>\<open>deserialize\<close>.\<close>

function skip_live :: "int list \<Rightarrow> int \<Rightarrow> int" where
  "skip_live live i =
     (if i \<in> set live
      then (if i + 1 > MAX_SAFE_INTEGER then i + 1 else skip_live live (i + 1))
      else i)"
  by pat_completeness auto
termination
  by (relation "measure (\<lambda>(live, i). nat (MAX_SAFE_INTEGER + 1 - i))") auto

text \<open>
  \<^verbatim>\<open>deserialize(document)\<close>; the argument is \<open>None\<close> for input that does not parse or has
  no \<^verbatim>\<open>entities\<close> array. \<open>fl\<close> and \<open>depth\<close> are those of the removals of the initial \<^verbatim>\<open>clear()\<close>.
  The result is \<open>None\<close> when the call throws or does not return.
\<close>

definition deserialize ::
  "registry \<Rightarrow> interruptions \<Rightarrow> nat \<Rightarrow> store \<Rightarrow> scene option \<Rightarrow> (store \<times> bool) option" where
  "deserialize reg fl depth s input =
     (let s0 = clear fl depth s in
      case input of
        None \<Rightarrow> Some (s0, False)
      | Some doc \<Rightarrow>
          (case fold_option (restore_entity reg) doc
                  \<lparr>p_store = s0, highestId = 0, restoredEntityIds = [], allRestored = True\<rparr> of
             None \<Rightarrow> None
           | Some p \<Rightarrow>
               (case fold_option (rebuild_parent doc (restoredEntityIds p))
                       (restoredEntityIds p) (p_store p, True) of
                  None \<Rightarrow> None
                | Some (s2, linked) \<Rightarrow>
                    let n = skip_live (entities s2) (highestId p + 1);
                        s3 = s2\<lparr>nextEntityId := (if n < 1 then 1 else n)\<rparr>
                    in Some (emit SceneImported s3, allRestored p \<and> linked))))"

subsection \<open>Callers of the store\<close>

datatype store_call =
    DoCreateEntity
  | DoRemoveEntity int
  | DoAddComponent int string jsobject
  | DoRemoveComponent int string
  | DoSetParent int jsval
  | DoClear
  | DoDeserialize "scene option"

text \<open>
  One public call that changes the store; results are dropped. \<open>None\<close> when the call
  throws or does not return.
\<close>

fun store_step ::
  "registry \<Rightarrow> interruptions \<Rightarrow> nat \<Rightarrow> store_call \<Rightarrow> store \<Rightarrow> store option" where
  "store_step reg fl depth DoCreateEntity s =
     (case createEntity s of Inl e \<Rightarrow> None | Inr res \<Rightarrow> Some (snd res))"
| "store_step reg fl depth (DoRemoveEntity i) s = Some (fst (removeEntity fl depth s i))"
| "store_step reg fl depth (DoAddComponent i t data) s = map_option fst (addComponent reg s i t data)"
| "store_step reg fl depth (DoRemoveComponent i t) s = map_option fst (removeComponent s i t)"
| "store_step reg fl depth (DoSetParent i p) s = map_option fst (setParent s i p (JStr ''setParent''))"
| "store_step reg fl depth DoClear s = Some (clear fl depth s)"
| "store_step reg fl depth (DoDeserialize input) s = map_option fst (deserialize reg fl depth s input)"

definition store_run ::
  "registry \<Rightarrow> interruptions \<Rightarrow> nat \<Rightarrow> store_call list \<Rightarrow> store \<Rightarrow> store option" where
  "store_run reg fl depth cs s = fold_option (store_step reg fl depth) cs s"

subsection \<open>Runs of createEntity and removeEntity\<close>

datatype em_call = CallCreateEntity | CallRemoveEntity int

datatype em_return = Created int | Removed int bool

text \<open>
  A caller that only creates and removes entities, with what each call returned. The
  run has no value when a call throws.
\<close>

fun em_run ::
  "interruptions \<Rightarrow> nat \<Rightarrow> em_call list \<Rightarrow> store \<Rightarrow> (store \<times> em_return list) option" where
  "em_run fl depth [] s = Some (s, [])"
| "em_run fl depth (CallCreateEntity # cs) s =
     (case createEntity s of
        Inl e \<Rightarrow> None
      | Inr (i, s') \<Rightarrow> map_option (\<lambda>(s'', rs). (s'', Created i # rs)) (em_run fl depth cs s'))"
| "em_run fl depth (CallRemoveEntity i # cs) s =
     (case removeEntity fl depth s i of
        (s', b) \<Rightarrow> map_option (\<lambda>(s'', rs). (s'', Removed i b # rs)) (em_run fl depth cs s'))"

fun created :: "em_return list \<Rightarrow> int list" where
  "created [] = []"
| "created (Created i # rs) = i # created rs"
| "created (Removed i b # rs) = created rs"

text \<open>No id that a successful \<^verbatim>\<open>removeEntity\<close> released is returned by a later \<^verbatim>\<open>createEntity\<close>.\<close>

fun never_reissued :: "em_return list \<Rightarrow> bool" where
  "never_reissued [] = True"
| "never_reissued (Removed i True # rs) = (i \<notin> set (created rs) \<and> never_reissued rs)"
| "never_reissued (r # rs) = never_reissued rs"

text \<open>\<open>i\<close> is the lowest free id: it is not live, and every id from 1 up to it is.\<close>

definition lowest_free :: "store \<Rightarrow> int \<Rightarrow> bool" where
  "lowest_free s i =
     (1 \<le> i \<and> i \<notin> set (entities s) \<and> list_all (\<lambda>j. j \<in> set (entities s)) [1..i - 1])"

text \<open>
  In a run of creations and removals no entity has a component, and every live id is
  below the counter.
\<close>

definition bare :: "store \<Rightarrow> bool" where
  "bare s = (\<forall>i. entityComponents s i = None \<or> entityComponents s i = Some empty_components)"

definition below_counter :: "store \<Rightarrow> bool" where
  "below_counter s = (\<forall>i \<in> set (entities s). i < nextEntityId s)"

subsection \<open>Facts about createEntity and removeEntity\<close>

declare next_free_id.simps [simp del]
declare remove_nested.simps(2) [simp del]

lemma next_free_id_spec:
  "next_free_id live i = Some j \<Longrightarrow>
     i \<le> j \<and> j \<notin> set live \<and> (\<forall>k. i \<le> k \<and> k < j \<longrightarrow> k \<in> set live)"
proof (induction live i rule: next_free_id.induct)
  case (1 live i)
  show ?case
  proof (cases "i \<in> set live")
    case False
    with "1.prems" have "j = i" by (simp add: next_free_id.simps [of live i])
    with False show ?thesis by auto
  next
    case True
    with "1.prems" have big: "\<not> i + 1 > MAX_SAFE_INTEGER"
      and rec: "next_free_id live (i + 1) = Some j"
      by (simp_all add: next_free_id.simps [of live i] split: if_splits)
    from "1.IH" [OF True big rec]
    have ih: "i + 1 \<le> j" "j \<notin> set live" "\<forall>k. i + 1 \<le> k \<and> k < j \<longrightarrow> k \<in> set live"
      by simp_all
    have "k \<in> set live" if "i \<le> k" "k < j" for k
    proof (cases "k = i")
      case True
      with \<open>i \<in> set live\<close> show ?thesis by simp
    next
      case False
      with that ih(3) show ?thesis by simp
    qed
    with ih show ?thesis by simp
  qed
qed

lemma next_free_id_fresh: "i \<notin> set live \<Longrightarrow> next_free_id live i = Some i"
  by (simp add: next_free_id.simps [of live i])

lemma createEntity_spec:
  assumes "createEntity s = Inr (j, s')"
  shows "nextEntityId s \<le> j" "j \<notin> set (entities s)"
    "\<forall>k. nextEntityId s \<le> k \<and> k < j \<longrightarrow> k \<in> set (entities s)"
    "entities s' = entities s @ [j]" "nextEntityId s' = j + 1"
    "entityComponents s' = (entityComponents s)(j \<mapsto> empty_components)"
    "componentEntityMap s' = componentEntityMap s" "events s' = events s"
proof -
  from assms obtain j0 where f: "next_free_id (entities s) (nextEntityId s) = Some j0"
    by (auto simp: createEntity_def split: option.splits)
  with assms have j: "j0 = j"
    and s': "s' = s\<lparr>nextEntityId := j + 1, entities := set_add j (entities s),
                    entityComponents := (entityComponents s)(j \<mapsto> empty_components)\<rparr>"
    by (auto simp: createEntity_def)
  from next_free_id_spec [OF f] j
  show "nextEntityId s \<le> j" and nl: "j \<notin> set (entities s)"
    and "\<forall>k. nextEntityId s \<le> k \<and> k < j \<longrightarrow> k \<in> set (entities s)"
    by simp_all
  from s' nl show "entities s' = entities s @ [j]" by (simp add: set_add_def)
  from s' show "nextEntityId s' = j + 1"
    and "entityComponents s' = (entityComponents s)(j \<mapsto> empty_components)"
    and "componentEntityMap s' = componentEntityMap s" and "events s' = events s"
    by simp_all
qed

lemma createEntity_below_counter:
  assumes "below_counter s"
  shows "createEntity s =
     Inr (nextEntityId s,
          s\<lparr>nextEntityId := nextEntityId s + 1,
            entities := entities s @ [nextEntityId s],
            entityComponents := (entityComponents s)(nextEntityId s \<mapsto> empty_components)\<rparr>)"
proof -
  have "nextEntityId s \<notin> set (entities s)"
    using assms by (auto simp: below_counter_def)
  then show ?thesis
    by (simp add: createEntity_def set_add_def next_free_id_fresh)
qed

lemma removeEntity_bare:
  assumes "bare s"
  shows "removeEntity fl d s i =
     (if hasEntity s i
      then (emit (EntityRemoved i)
              (s\<lparr>entityComponents := (entityComponents s)(i := None),
                 entities := set_delete i (entities s)\<rparr>), True)
      else (s, False))"
proof (cases "hasEntity s i")
  case False
  then show ?thesis by (simp add: removeEntity_def)
next
  case True
  have t: "getTransform s i = None"
    using assms [unfolded bare_def, rule_format, of i]
    by (auto simp: getTransform_def empty_components_def)
  have c: "(case entityComponents s i of None \<Rightarrow> s
            | Some m \<Rightarrow> fold (removeComponentFromEntityMap i) (component_types m) s) = s"
    using assms [unfolded bare_def, rule_format, of i]
    by (auto simp: empty_components_def component_types_def)
  show ?thesis
    using True
    by (simp add: removeEntity_def frame_body_def t c purge_def Let_def)
qed


lemma em_run_bare:
  assumes "bare s" "below_counter s"
  shows "\<exists>s' rs. em_run fl d cs s = Some (s', rs) \<and> bare s' \<and> below_counter s'
      \<and> nextEntityId s \<le> nextEntityId s'
      \<and> (\<forall>i \<in> set (created rs). nextEntityId s \<le> i)
      \<and> sorted_wrt (<) (created rs) \<and> never_reissued rs
      \<and> (distinct (entities s) \<longrightarrow> distinct (entities s'))"
  using assms
proof (induction cs arbitrary: s)
  case Nil
  then show ?case by simp
next
  case (Cons c cs)
  show ?case
  proof (cases c)
    case CallCreateEntity
    define n where "n = nextEntityId s"
    define s1 where "s1 = s\<lparr>nextEntityId := n + 1, entities := entities s @ [n],
        entityComponents := (entityComponents s)(n \<mapsto> empty_components)\<rparr>"
    have ce: "createEntity s = Inr (n, s1)"
      using createEntity_below_counter [OF Cons.prems(2)] by (simp add: n_def s1_def)
    have fresh: "n \<notin> set (entities s)"
      using Cons.prems(2) by (auto simp: below_counter_def n_def)
    have b1: "bare s1" using Cons.prems(1) by (simp add: bare_def s1_def)
    have c1: "below_counter s1"
      using Cons.prems(2) by (auto simp: below_counter_def s1_def n_def)
    from Cons.IH [OF b1 c1] obtain s' rs where
      run: "em_run fl d cs s1 = Some (s', rs)" and "bare s'" "below_counter s'"
      and nx: "nextEntityId s1 \<le> nextEntityId s'"
      and lb: "\<forall>i \<in> set (created rs). nextEntityId s1 \<le> i"
      and so: "sorted_wrt (<) (created rs)" and nr: "never_reissued rs"
      and di: "distinct (entities s1) \<longrightarrow> distinct (entities s')"
      by blast
    have n1: "nextEntityId s1 = n + 1" by (simp add: s1_def)
    have "em_run fl d (c # cs) s = Some (s', Created n # rs)"
      using CallCreateEntity ce run by simp
    moreover have "\<forall>i \<in> set (created (Created n # rs)). nextEntityId s \<le> i"
      using lb n1 by (auto simp: n_def)
    moreover have "sorted_wrt (<) (created (Created n # rs))"
      using lb n1 so by auto
    moreover have "distinct (entities s) \<longrightarrow> distinct (entities s')"
      using di fresh by (simp add: s1_def)
    moreover have "nextEntityId s \<le> nextEntityId s'"
      using nx n1 by (simp add: n_def)
    ultimately show ?thesis
      using \<open>bare s'\<close> \<open>below_counter s'\<close> nr by simp
  next
    case (CallRemoveEntity i)
    define b where "b = hasEntity s i"
    define s1 where "s1 = (if b then emit (EntityRemoved i)
        (s\<lparr>entityComponents := (entityComponents s)(i := None),
           entities := set_delete i (entities s)\<rparr>) else s)"
    have re: "removeEntity fl d s i = (s1, b)"
      using removeEntity_bare [OF Cons.prems(1), of fl d i] by (simp add: s1_def b_def)
    have b1: "bare s1"
      using Cons.prems(1) by (simp add: bare_def s1_def emit_def)
    have c1: "below_counter s1"
      using Cons.prems(2) by (auto simp: below_counter_def s1_def emit_def set_delete_def)
    have n1: "nextEntityId s1 = nextEntityId s" by (simp add: s1_def emit_def)
    from Cons.IH [OF b1 c1] obtain s' rs where
      run: "em_run fl d cs s1 = Some (s', rs)" and "bare s'" "below_counter s'"
      and nx: "nextEntityId s1 \<le> nextEntityId s'"
      and lb: "\<forall>i \<in> set (created rs). nextEntityId s1 \<le> i"
      and so: "sorted_wrt (<) (created rs)" and nr: "never_reissued rs"
      and di: "distinct (entities s1) \<longrightarrow> distinct (entities s')"
      by blast
    have "em_run fl d (c # cs) s = Some (s', Removed i b # rs)"
      using CallRemoveEntity re run by simp
    moreover have "never_reissued (Removed i b # rs)"
    proof (cases b)
      case True
      then have "i < nextEntityId s"
        using Cons.prems(2) by (auto simp: b_def hasEntity_def below_counter_def)
      with lb n1 have "i \<notin> set (created rs)" by auto
      with True nr show ?thesis by simp
    next
      case False
      with nr show ?thesis by simp
    qed
    moreover have "distinct (entities s) \<longrightarrow> distinct (entities s')"
      using di by (simp add: s1_def emit_def set_delete_def distinct_removeAll)
    ultimately show ?thesis
      using \<open>bare s'\<close> \<open>below_counter s'\<close> nx lb so n1 by simp
  qed
qed

lemma new_EntityManager_bare: "bare new_EntityManager" "below_counter new_EntityManager"
  "distinct (entities new_EntityManager)"
  by (simp_all add: bare_def below_counter_def new_EntityManager_def)

text \<open>
  Claim C9, as the code has it. \<^verbatim>\<open>createEntity\<close> returns the lowest id that is not below the
  store's counter and is not live, appends it to the live set and sets the counter past
  it; the counter of a fresh store is 1. The id need not be the lowest free one: ids below
  the counter are never looked at. In every run of \<^verbatim>\<open>createEntity\<close> and \<^verbatim>\<open>removeEntity\<close> calls
  on a fresh store each call returns, no two live entities share an id, and an id that
  was removed is not returned by any later \<^verbatim>\<open>createEntity\<close>.
\<close>

theorem createEntity_counter_allocation:
  "(createEntity s = Inr (j, s') \<longrightarrow>
      nextEntityId s \<le> j \<and> j \<notin> set (entities s)
      \<and> (\<forall>k. nextEntityId s \<le> k \<and> k < j \<longrightarrow> k \<in> set (entities s))
      \<and> entities s' = entities s @ [j] \<and> nextEntityId s' = j + 1)
   \<and> nextEntityId new_EntityManager = 1
   \<and> (\<exists>s'' rs. em_run fl d cs new_EntityManager = Some (s'', rs)
        \<and> distinct (entities s'') \<and> never_reissued rs)"
proof -
  from em_run_bare [OF new_EntityManager_bare(1,2), of fl d cs] new_EntityManager_bare(3)
  have "\<exists>s'' rs. em_run fl d cs new_EntityManager = Some (s'', rs)
        \<and> distinct (entities s'') \<and> never_reissued rs"
    by blast
  moreover have "nextEntityId new_EntityManager = 1" by (simp add: new_EntityManager_def)
  ultimately show ?thesis
    using createEntity_spec [of s j s'] by blast
qed

text \<open>
  Claim C10. In any run of \<^verbatim>\<open>createEntity\<close> and \<^verbatim>\<open>removeEntity\<close> calls on a fresh store, whatever
  room the stack has for nested removals, every call returns, the ids returned
  by the \<^verbatim>\<open>createEntity\<close> calls are strictly increasing in the order of the calls, and the id
  of an entity that \<^verbatim>\<open>removeEntity\<close> removed is never returned by a later \<^verbatim>\<open>createEntity\<close>.
\<close>

theorem created_ids_strictly_increasing:
  "\<exists>s rs. em_run fl d cs new_EntityManager = Some (s, rs)
     \<and> sorted_wrt (<) (created rs) \<and> never_reissued rs"
  using em_run_bare [OF new_EntityManager_bare(1,2), of fl d cs] by blast

text \<open>A concrete run, and the definitions that evaluate it.\<close>

definition demo_calls :: "em_call list" where
  "demo_calls = [CallCreateEntity, CallCreateEntity, CallRemoveEntity 1, CallCreateEntity]"

lemmas em_eval = createEntity_def next_free_id.simps removeEntity_def remove_nested.simps(2)
  frame_body_def remove_children_def detach_from_parent_def forced_cleanup_def
  cleanupEntityFromComponentMap_def uninterrupted_def purge_def set_add_def
  set_delete_def new_EntityManager_def hasEntity_def getTransform_def empty_components_def
  component_types_def emit_def Let_def MAX_SAFE_INTEGER_def

lemma demo_run:
  "map_option snd (em_run uninterrupted 1 demo_calls new_EntityManager)
     = Some [Created 1, Created 2, Removed 1 True, Created 3]"
  by (simp add: demo_calls_def em_eval)

text \<open>The theorem at the run create, create, remove 1, create: the ids are 1, 2 and 3.\<close>

theorem created_ids_strictly_increasing_witness:
  "map_option snd (em_run uninterrupted 1 demo_calls new_EntityManager)
     = Some [Created 1, Created 2, Removed 1 True, Created 3]
   \<and> sorted_wrt (<) (created [Created 1, Created 2, Removed 1 True, Created 3])
   \<and> never_reissued [Created 1, Created 2, Removed 1 True, Created 3]"
  using created_ids_strictly_increasing [of uninterrupted 1 demo_calls] demo_run by auto

text \<open>
  The theorem at the first \<^verbatim>\<open>createEntity\<close> on a fresh store and at the run create, create,
  remove 1, create.
\<close>

theorem createEntity_counter_allocation_witness:
  "createEntity new_EntityManager =
     Inr (1, new_EntityManager\<lparr>nextEntityId := 2, entities := [1],
               entityComponents := (entityComponents new_EntityManager)(1 \<mapsto> empty_components)\<rparr>)
   \<and> 1 \<notin> set (entities new_EntityManager)
   \<and> map_option snd (em_run uninterrupted 1 demo_calls new_EntityManager)
       = Some [Created 1, Created 2, Removed 1 True, Created 3]
   \<and> map_option (\<lambda>r. distinct (entities (fst r)))
       (em_run uninterrupted 1 demo_calls new_EntityManager)
       = Some True"
proof -
  have ce: "createEntity new_EntityManager =
     Inr (1, new_EntityManager\<lparr>nextEntityId := 2, entities := [1],
               entityComponents := (entityComponents new_EntityManager)(1 \<mapsto> empty_components)\<rparr>)"
    by (simp add: em_eval)
  from createEntity_counter_allocation [of new_EntityManager 1 _ uninterrupted 1 demo_calls, OF] ce demo_run
  show ?thesis by auto
qed

text \<open>
  The claim as stated says that \<^verbatim>\<open>createEntity\<close> allocates the lowest free id. After create,
  create, remove 1 the lowest free id is 1; \<^verbatim>\<open>createEntity\<close> returns 3.
\<close>

theorem createEntity_not_lowest_free_counterexample:
  "\<exists>s s'. em_run uninterrupted 1 [CallCreateEntity, CallCreateEntity, CallRemoveEntity 1]
          new_EntityManager
        = Some (s, [Created 1, Created 2, Removed 1 True])
     \<and> createEntity s = Inr (3, s') \<and> lowest_free s 1 \<and> \<not> lowest_free s 3"
  by (simp add: em_eval lowest_free_def upto.simps [of 1 2] upto.simps [of 2 2] upto.simps [of 3 2])

subsection \<open>Rejected setParent calls\<close>

text \<open>
  Entity \<open>c\<close> is the value \<open>x\<close> or is met within \<open>n\<close> steps along the parent links that
  start at \<open>x\<close>: \<open>c\<close> is an ancestor of \<open>x\<close> (or \<open>x\<close> itself).
\<close>

fun ancestor_within :: "nat \<Rightarrow> store \<Rightarrow> int \<Rightarrow> jsval \<Rightarrow> bool" where
  "ancestor_within 0 s c x = (x = JNum c)"
| "ancestor_within (Suc n) s c x =
     (x = JNum c \<or>
      (case getTransform_val s x of
         None \<Rightarrow> False
       | Some t \<Rightarrow> ancestor_within n s c (parent t)))"

definition currentParent :: "store \<Rightarrow> int \<Rightarrow> jsval option" where
  "currentParent s c = map_option parent (getTransform s c)"

text \<open>
  The store of the scenario in the specification: entities 1 and 2 with a transform each,
  2 a child of 1.
\<close>

definition family_calls :: "store_call list" where
  "family_calls =
     [DoCreateEntity, DoCreateEntity, DoAddComponent 1 ''transform'' [],
      DoAddComponent 2 ''transform'' [], DoSetParent 2 (JNum 1)]"

definition default_transform :: transform where
  "default_transform =
     \<lparr>position = JArr [JNum 0, JNum 0, JNum 0], rotation = JArr [JNum 0, JNum 0, JNum 0],
      scale = JArr [JNum 1, JNum 1, JNum 1], parent = JNull, children = []\<rparr>"

definition only_transform :: registry where
  "only_transform = \<lparr>transformRegistered = True, classes = (\<lambda>_. None)\<rparr>"

definition family_store :: store where
  "family_store =
     \<lparr>nextEntityId = 3, entities = [1, 2],
      entityComponents =
        (\<lambda>i. if i = 1 then Some \<lparr>transformSlot = Some (default_transform\<lparr>children := [JNum 2]\<rparr>),
                                  others = []\<rparr>
             else if i = 2 then Some \<lparr>transformSlot = Some (default_transform\<lparr>parent := JNum 1\<rparr>),
                                  others = []\<rparr>
             else None),
      componentEntityMap = (\<lambda>t. if t = ''transform'' then Some [1, 2] else None),
      events =
        [ComponentAdded 1 ''transform'' (Transform default_transform) True (JStr ''unknown''),
         EntityUpdated 1 ''transform'' [] False (JStr ''unknown''),
         ComponentAdded 2 ''transform'' (Transform default_transform) True (JStr ''unknown''),
         EntityUpdated 2 ''transform'' [] False (JStr ''unknown''),
         EntityHierarchyChanged 2 (JNum 1) JNull (JStr ''setParent''),
         EntityUpdated 2 ''transform'' [(''parent'', JNum 1)] False (JStr ''setParent'')]\<rparr>"

text \<open>
  A store that the public calls build and in which the parent links form a cycle: the
  entities 1 and 2 get their first transform with the other one as parent.
\<close>

definition cyclic_calls :: "store_call list" where
  "cyclic_calls =
     [DoCreateEntity, DoCreateEntity, DoAddComponent 1 ''transform'' [(''parent'', JNum 2)],
      DoAddComponent 2 ''transform'' [(''parent'', JNum 1)]]"

subsection \<open>Facts about setParent\<close>

lemma ancestor_check_rejects:
  "ancestor_within n s c x \<Longrightarrow> ancestor_check s c x = Some False"
proof (induction n arbitrary: x)
  case 0
  then show ?case by (subst ancestor_check.simps) simp
next
  case (Suc n)
  show ?case
  proof (cases "x = JNum c")
    case True
    then show ?thesis by (subst ancestor_check.simps) simp
  next
    case False
    with Suc.prems obtain t where t: "getTransform_val s x = Some t"
      and a: "ancestor_within n s c (parent t)"
      by (auto split: option.splits)
    from t have "x \<noteq> JNull" by auto
    with False t Suc.IH [OF a] show ?thesis
      by (subst ancestor_check.simps) simp
  qed
qed

lemma setParent_rejected_unchanged:
  "setParent s c q src = Some (s', False) \<Longrightarrow> s' = s"
  by (auto simp: setParent_def Let_def split: if_splits option.splits bool.splits)

lemma setParent_cycle:
  assumes "ancestor_within n s c p" "currentParent s c \<noteq> Some p"
  shows "setParent s c p src = Some (s, False)"
proof -
  have chk: "ancestor_check s c p = Some False"
    using assms(1) by (rule ancestor_check_rejects)
  show ?thesis
    using assms(2) chk
    by (auto simp: setParent_def currentParent_def split: option.splits)
qed

lemma setParent_ancestor_unchanged:
  assumes "ancestor_within n s c p"
  shows "\<exists>b. setParent s c p src = Some (s, b)"
proof (cases "currentParent s c = Some p")
  case False
  with assms have "setParent s c p src = Some (s, False)" by (rule setParent_cycle)
  then show ?thesis by blast
next
  case True
  then show ?thesis
    by (auto simp: setParent_def currentParent_def split: option.splits)
qed

lemma setParent_validation:
  "\<not> hasEntity s c \<Longrightarrow> setParent s c p src = Some (s, False)"
  "p \<noteq> JNull \<Longrightarrow> \<not> hasEntity_val s p \<Longrightarrow> setParent s c p src = Some (s, False)"
  "setParent s c (JNum c) src = Some (s, False)"
  "getTransform s c = None \<Longrightarrow> setParent s c p src = Some (s, False)"
  "p \<noteq> JNull \<Longrightarrow> getTransform_val s p = None \<Longrightarrow> setParent s c p src = Some (s, False)"
  by (auto simp: setParent_def split: option.splits)

text \<open>The definitions that evaluate a concrete run of store calls.\<close>

lemmas store_eval =
  store_run_def createEntity_def next_free_id.simps MAX_SAFE_INTEGER_def set_add_def
  set_delete_def new_Set_def new_EntityManager_def hasEntity_def getTransform_def
  getComponent_def lookup_component_def empty_components_def emit_def Let_def
  addComponent_def add_new_def update_existing_transform_def announce_added_def
  store_component_def delete_component_def addComponentToEntityMap_def
  removeComponentFromEntityMap_def registry_get_def blank_def is_space_def get_prop_def
  new_TransformComponent_def array_or_def setParent_def ancestor_check.simps
  update_transform_def transform_assign_def assigned_def

lemma family_store_reached:
  "store_run only_transform uninterrupted 1 family_calls new_EntityManager = Some family_store"
  by (simp add: store_eval family_calls_def only_transform_def family_store_def
      default_transform_def fun_eq_iff)

text \<open>
  Claim C3, as the code has it. Let \<open>c\<close> be \<open>p\<close> or be met along the parent links from \<open>p\<close>
  (\<open>c\<close> is an ancestor of \<open>p\<close>). Then \<^verbatim>\<open>setParent(c, p)\<close> leaves the store as it was, event log
  included, and it returns false unless \<open>p\<close> already is the parent of \<open>c\<close>. Every rejected
  call does the same: a call that returns false returns the store it was given, and a
  missing child, a missing parent, self-parenting and a missing transform on either side
  are rejected.
\<close>

theorem setParent_rejection_leaves_store:
  "(ancestor_within n s c p \<longrightarrow> (\<exists>b. setParent s c p src = Some (s, b)))
   \<and> (ancestor_within n s c p \<and> currentParent s c \<noteq> Some p
      \<longrightarrow> setParent s c p src = Some (s, False))
   \<and> (setParent s c q src = Some (s', False) \<longrightarrow> s' = s)
   \<and> (\<not> hasEntity s c \<longrightarrow> setParent s c q src = Some (s, False))
   \<and> (q \<noteq> JNull \<and> \<not> hasEntity_val s q \<longrightarrow> setParent s c q src = Some (s, False))
   \<and> setParent s c (JNum c) src = Some (s, False)
   \<and> (getTransform s c = None \<longrightarrow> setParent s c q src = Some (s, False))
   \<and> (q \<noteq> JNull \<and> getTransform_val s q = None \<longrightarrow> setParent s c q src = Some (s, False))"
  using setParent_ancestor_unchanged [of n s c p src] setParent_cycle [of n s c p src]
    setParent_rejected_unchanged [of s c q src s'] setParent_validation
  by blast

text \<open>
  The scenario of the specification: with 2 a child of 1, \<^verbatim>\<open>setParent(1, 2)\<close> is rejected
  and changes nothing; so are calls with the unknown entity 9 and self-parenting.
\<close>

theorem setParent_rejection_leaves_store_witness:
  "getChildren family_store 1 = [JNum 2]
   \<and> currentParent family_store 2 = Some (JNum 1)
   \<and> ancestor_within 1 family_store 1 (JNum 2)
   \<and> currentParent family_store 1 = Some JNull
   \<and> setParent family_store 1 (JNum 2) (JStr ''setParent'') = Some (family_store, False)
   \<and> \<not> hasEntity family_store 9
   \<and> setParent family_store 9 (JNum 2) (JStr ''setParent'') = Some (family_store, False)
   \<and> setParent family_store 1 (JNum 9) (JStr ''setParent'') = Some (family_store, False)
   \<and> setParent family_store 1 (JNum 1) (JStr ''setParent'') = Some (family_store, False)"
proof -
  have facts: "getChildren family_store 1 = [JNum 2]"
    "currentParent family_store 2 = Some (JNum 1)"
    "ancestor_within 1 family_store 1 (JNum 2)"
    "currentParent family_store 1 = Some JNull"
    "\<not> hasEntity family_store 9" "\<not> hasEntity_val family_store (JNum 9)"
    by (simp_all add: family_store_def getChildren_def currentParent_def getTransform_def
        hasEntity_def default_transform_def)
  from facts
    setParent_rejection_leaves_store [of 1 family_store 1 "JNum 2" "JStr ''setParent''" "JNum 9"]
    setParent_rejection_leaves_store [of 0 family_store 9 "JNum 9" "JStr ''setParent''" "JNum 2"]
    setParent_rejection_leaves_store [of 0 family_store 1 "JNum 1" "JStr ''setParent''" "JNum 1"]
  show ?thesis by simp
qed

text \<open>
  The claim as stated says that \<^verbatim>\<open>setParent(c, p)\<close> returns false whenever \<open>c\<close> is an ancestor
  of \<open>p\<close>. In the store after \<^verbatim>\<open>createEntity()\<close> twice,
  \<^verbatim>\<open>addComponent(1, 'transform', {parent: 2})\<close> and \<^verbatim>\<open>addComponent(2, 'transform', {parent: 1})\<close>
  entity 1 is the parent of 2, hence an ancestor of 2, and 2 is the parent of 1:
  \<^verbatim>\<open>setParent(1, 2)\<close> finds 1 parented as asked and returns true.
\<close>

theorem setParent_already_parented_counterexample:
  "map_option
     (\<lambda>s. (currentParent s 1, currentParent s 2, ancestor_within 1 s 1 (JNum 2),
           setParent s 1 (JNum 2) (JStr ''setParent'') = Some (s, True)))
     (store_run only_transform uninterrupted 1 cyclic_calls new_EntityManager)
   = Some (Some (JNum 2), Some (JNum 1), True, True)"
  by (simp add: cyclic_calls_def only_transform_def store_eval currentParent_def)

subsection \<open>The secondary index\<close>

text \<open>
  The invariant behind index consistency: every live entity has a component map, no
  component is stored under a blank type name, and the set that \<^verbatim>\<open>componentEntityMap\<close>
  holds for a type has exactly the live entities with a component of that type.
\<close>

definition index_of :: "store \<Rightarrow> string \<Rightarrow> int list" where
  "index_of s t = (case componentEntityMap s t of None \<Rightarrow> [] | Some ids \<Rightarrow> ids)"

definition store_inv :: "store \<Rightarrow> bool" where
  "store_inv s =
     ((\<forall>i \<in> set (entities s). entityComponents s i \<noteq> None)
      \<and> (\<forall>i t. hasComponent s i t \<longrightarrow> \<not> blank t)
      \<and> (\<forall>t i. (i \<in> set (index_of s t)) = hasComponent s i t))"

text \<open>What claim C4 asks of a store.\<close>

definition index_consistent :: "store \<Rightarrow> bool" where
  "index_consistent s =
     (\<forall>t. set (getEntitiesWithComponent s t) = {i \<in> set (entities s). hasComponent s i t})"

text \<open>Two stores with the same entities, the same index and the same component types.\<close>

definition same_shape :: "store \<Rightarrow> store \<Rightarrow> bool" where
  "same_shape s s' =
     (entities s' = entities s \<and> (\<forall>t. set (index_of s' t) = set (index_of s t))
      \<and> (\<forall>i. (entityComponents s' i = None) = (entityComponents s i = None))
      \<and> (\<forall>i t. hasComponent s' i t = hasComponent s i t))"

lemma hasComponent_live: "hasComponent s i t \<Longrightarrow> i \<in> set (entities s)"
  by (simp add: hasComponent_def hasEntity_def split: if_splits)

lemma store_inv_consistent:
  assumes "store_inv s"
  shows "index_consistent s"
  unfolding index_consistent_def
proof
  fix t
  from assms have nb: "\<And>i. hasComponent s i t \<Longrightarrow> \<not> blank t"
    and ix: "\<And>i. (i \<in> set (index_of s t)) = hasComponent s i t"
    by (simp_all add: store_inv_def)
  show "set (getEntitiesWithComponent s t) = {i \<in> set (entities s). hasComponent s i t}"
  proof (cases "blank t")
    case True
    with nb have "\<And>i. \<not> hasComponent s i t" by blast
    with True show ?thesis by (simp add: getEntitiesWithComponent_def)
  next
    case False
    then have "getEntitiesWithComponent s t = index_of s t"
      by (simp add: getEntitiesWithComponent_def index_of_def)
    with ix hasComponent_live [of s _ t] show ?thesis by auto
  qed
qed

lemma same_shape_refl [simp]: "same_shape s s"
  by (simp add: same_shape_def)

lemma same_shape_trans: "same_shape s s1 \<Longrightarrow> same_shape s1 s2 \<Longrightarrow> same_shape s s2"
  by (simp add: same_shape_def)

lemma same_shape_inv: "same_shape s s' \<Longrightarrow> store_inv s \<Longrightarrow> store_inv s'"
  by (simp add: same_shape_def store_inv_def)

lemma same_shape_emit [simp]: "same_shape s (emit e s)"
  by (simp add: same_shape_def emit_def hasComponent_def hasEntity_def index_of_def)

lemma same_shape_update_transform [simp]: "same_shape s (update_transform i f s)"
  by (auto simp: same_shape_def update_transform_def hasComponent_def hasEntity_def
      lookup_component_def index_of_def split: option.splits)

lemma same_shape_update_transform_val [simp]: "same_shape s (update_transform_val v f s)"
  by (cases v) simp_all

lemma same_shape_setParent:
  assumes "setParent s c p src = Some (s', b)"
  shows "same_shape s s'"
proof (cases b)
  case False
  with assms have "s' = s" by (simp add: setParent_rejected_unchanged)
  then show ?thesis by simp
next
  case accepted: True
  show ?thesis
  proof (cases "\<exists>tr. getTransform s c = Some tr \<and> parent tr \<noteq> p
      \<and> ancestor_check s c p = Some True")
    case False
    with assms accepted have "s' = s"
      by (auto simp: setParent_def Let_def split: if_splits option.splits bool.splits)
    then show ?thesis by simp
  next
    case True
    then obtain tr where tr: "getTransform s c = Some tr" "parent tr \<noteq> p"
      "ancestor_check s c p = Some True" by blast
    define s1 where "s1 = (if parent tr \<noteq> JNull \<and> parent tr \<noteq> p
        then update_transform_val (parent tr)
               (\<lambda>t. t\<lparr>children := set_delete (JNum c) (children t)\<rparr>) s else s)"
    define s2 where "s2 = (if p \<noteq> JNull
        then update_transform_val p (\<lambda>t. t\<lparr>children := set_add (JNum c) (children t)\<rparr>) s1
        else s1)"
    define s3 where "s3 = update_transform c (\<lambda>t. t\<lparr>parent := p\<rparr>) s2"
    have s': "s' = emit (EntityUpdated c ''transform'' [(''parent'', p)] False src)
        (emit (EntityHierarchyChanged c p (parent tr) src) s3)"
      using assms tr accepted
      by (auto simp: setParent_def Let_def s1_def s2_def s3_def split: if_splits)
    have "same_shape s s1" by (simp add: s1_def)
    moreover have "same_shape s1 s2" by (simp add: s2_def)
    moreover have "same_shape s2 s3" by (simp add: s3_def)
    moreover have "same_shape s3 s'" unfolding s'
      by (rule same_shape_trans [OF same_shape_emit same_shape_emit])
    ultimately show ?thesis by (blast intro: same_shape_trans)
  qed
qed

lemma same_shape_fold_option:
  assumes "\<And>x s s'. f x s = Some s' \<Longrightarrow> same_shape s s'"
  shows "fold_option f xs s = Some s' \<Longrightarrow> same_shape s s'"
proof (induction xs arbitrary: s)
  case Nil
  then show ?case by simp
next
  case (Cons x xs)
  then obtain s1 where "f x s = Some s1" "fold_option f xs s1 = Some s'"
    by (auto split: option.splits)
  with Cons.IH assms show ?case by (blast intro: same_shape_trans)
qed

lemma same_shape_detach_child: "detach_child v s = Some s' \<Longrightarrow> same_shape s s'"
  by (auto simp: detach_child_def split: jsval.splits if_splits dest: same_shape_setParent)


text \<open>The component kind that belongs under a type name.\<close>

definition fits :: "string \<Rightarrow> component \<Rightarrow> bool" where
  "fits t c = (case c of Transform tr \<Rightarrow> t = ''transform'' | Instance props \<Rightarrow> t \<noteq> ''transform'')"

lemma store_component_frame [simp]:
  "entities (store_component e t c s) = entities s"
  "index_of (store_component e t c s) t' = index_of s t'"
  "(entityComponents (store_component e t c s) i = None) = (entityComponents s i = None)"
  by (auto simp: store_component_def index_of_def split: option.splits)

lemma hasComponent_store_component:
  assumes "fits t c" "hasEntity s e" "entityComponents s e \<noteq> None"
  shows "hasComponent (store_component e t c s) i t' = (hasComponent s i t' \<or> (i = e \<and> t' = t))"
  using assms
  by (cases c)
    (auto simp: fits_def store_component_def hasComponent_def hasEntity_def lookup_component_def
      update_conv' split: option.splits)

lemma delete_component_frame [simp]:
  "entities (delete_component e t s) = entities s"
  "index_of (delete_component e t s) t' = index_of s t'"
  "(entityComponents (delete_component e t s) i = None) = (entityComponents s i = None)"
  by (auto simp: delete_component_def index_of_def split: option.splits)

lemma hasComponent_delete_component:
  "hasComponent (delete_component e t s) i t' = (hasComponent s i t' \<and> \<not> (i = e \<and> t' = t))"
  by (auto simp: delete_component_def hasComponent_def hasEntity_def lookup_component_def
      delete_conv' split: option.splits)

lemma addComponentToEntityMap_frame [simp]:
  "entities (addComponentToEntityMap e t s) = entities s"
  "entityComponents (addComponentToEntityMap e t s) = entityComponents s"
  "hasComponent (addComponentToEntityMap e t s) i t' = hasComponent s i t'"
  "set (index_of (addComponentToEntityMap e t s) t') =
     (if t' = t then insert e (set (index_of s t)) else set (index_of s t'))"
  by (auto simp: addComponentToEntityMap_def index_of_def hasComponent_def hasEntity_def
      set_add_def split: option.splits)

lemma removeComponentFromEntityMap_frame [simp]:
  "entities (removeComponentFromEntityMap e t s) = entities s"
  "entityComponents (removeComponentFromEntityMap e t s) = entityComponents s"
  "hasComponent (removeComponentFromEntityMap e t s) i t' = hasComponent s i t'"
  "set (index_of (removeComponentFromEntityMap e t s) t') =
     (if t' = t then set (index_of s t) - {e} else set (index_of s t'))"
  by (auto simp: removeComponentFromEntityMap_def index_of_def hasComponent_def hasEntity_def
      set_delete_def split: option.splits)

lemma emit_frame [simp]:
  "entities (emit ev s) = entities s"
  "entityComponents (emit ev s) = entityComponents s"
  "hasComponent (emit ev s) i t = hasComponent s i t"
  "index_of (emit ev s) t = index_of s t"
  by (simp_all add: emit_def hasComponent_def hasEntity_def index_of_def)

text \<open>A store that gained, or lost, the component of type \<open>t\<close> on entity \<open>e\<close>.\<close>

definition gained :: "int \<Rightarrow> string \<Rightarrow> store \<Rightarrow> store \<Rightarrow> bool" where
  "gained e t s s' =
     (entities s' = entities s
      \<and> (\<forall>i. (entityComponents s' i = None) = (entityComponents s i = None))
      \<and> (\<forall>i t'. hasComponent s' i t' = (hasComponent s i t' \<or> (i = e \<and> t' = t)))
      \<and> (\<forall>t'. set (index_of s' t') = (if t' = t then insert e (set (index_of s t))
                                         else set (index_of s t'))))"

definition lost :: "int \<Rightarrow> string \<Rightarrow> store \<Rightarrow> store \<Rightarrow> bool" where
  "lost e t s s' =
     (entities s' = entities s
      \<and> (\<forall>i. (entityComponents s' i = None) = (entityComponents s i = None))
      \<and> (\<forall>i t'. hasComponent s' i t' = (hasComponent s i t' \<and> \<not> (i = e \<and> t' = t)))
      \<and> (\<forall>t'. set (index_of s' t') = (if t' = t then set (index_of s t) - {e}
                                         else set (index_of s t'))))"

lemma gained_inv:
  assumes "store_inv s" "gained e t s s'" "\<not> blank t"
  shows "store_inv s'"
  using assms unfolding store_inv_def gained_def by auto

lemma lost_inv:
  assumes "store_inv s" "lost e t s s'"
  shows "store_inv s'"
  using assms unfolding store_inv_def lost_def by auto

lemma gained_same_shape: "gained e t s s1 \<Longrightarrow> same_shape s1 s2 \<Longrightarrow> gained e t s s2"
  by (simp add: gained_def same_shape_def)

lemma lost_same_shape: "lost e t s s1 \<Longrightarrow> same_shape s1 s2 \<Longrightarrow> lost e t s s2"
  by (simp add: lost_def same_shape_def)

lemma same_shape_lost: "same_shape s s1 \<Longrightarrow> lost e t s1 s2 \<Longrightarrow> lost e t s s2"
  by (simp add: lost_def same_shape_def)

lemma gained_then_lost:
  assumes "gained e t s s1" "lost e t s1 s2" "\<not> hasComponent s e t" "e \<notin> set (index_of s t)"
  shows "same_shape s s2"
  using assms unfolding gained_def lost_def same_shape_def by auto

lemma store_then_index_gained:
  assumes "fits t c" "hasEntity s e" "entityComponents s e \<noteq> None"
  shows "gained e t s (addComponentToEntityMap e t (store_component e t c s))"
  using assms by (simp add: gained_def hasComponent_store_component)

lemma delete_then_unindex_lost:
  "lost e t s (removeComponentFromEntityMap e t (delete_component e t s))"
  by (simp add: lost_def hasComponent_delete_component)

lemma restore_same_shape:
  assumes "fits t c" "hasEntity s e" "hasComponent s e t"
  shows "same_shape s (store_component e t c s)"
proof -
  from assms(3) have "entityComponents s e \<noteq> None"
    by (auto simp: hasComponent_def split: if_splits option.splits)
  with assms show ?thesis
    by (auto simp: same_shape_def hasComponent_store_component)
qed

lemma registry_get_fits:
  "registry_get reg t = Some TransformCtor \<Longrightarrow> t = ''transform''"
  "registry_get reg t = Some (ClassCtor c) \<Longrightarrow> t \<noteq> ''transform''"
  by (auto simp: registry_get_def split: if_splits)

lemma getComponent_None_iff:
  "hasEntity s e \<Longrightarrow> (getComponent s e t = None) = (\<not> hasComponent s e t)"
  by (auto simp: getComponent_def hasComponent_def split: option.splits)

lemma store_inv_live_map: "store_inv s \<Longrightarrow> hasEntity s e \<Longrightarrow> entityComponents s e \<noteq> None"
  by (auto simp: store_inv_def hasEntity_def)

lemma store_inv_not_indexed: "store_inv s \<Longrightarrow> \<not> hasComponent s e t \<Longrightarrow> e \<notin> set (index_of s t)"
  by (simp add: store_inv_def)

lemma announce_added_same_shape [simp]:
  "same_shape s (announce_added e t c n d src s)"
  unfolding announce_added_def
  by (rule same_shape_trans [OF same_shape_emit same_shape_emit])

lemma add_new_inv:
  assumes inv: "store_inv s" and live: "hasEntity s e" and nb: "\<not> blank t"
    and reg: "registry_get reg t = Some k" and new: "\<not> hasComponent s e t"
    and res: "add_new k s e t d src = (s', r)"
  shows "store_inv s'"
proof -
  note m = store_inv_live_map [OF inv live]
  show ?thesis
  proof (cases k)
    case TransformCtor
    then have t: "t = ''transform''" using reg registry_get_fits(1) by blast
    show ?thesis
    proof (cases "new_TransformComponent d")
      case None
      with res TransformCtor inv show ?thesis by (simp add: add_new_def)
    next
      case (Some tr)
      have g: "gained e t s (addComponentToEntityMap e t (store_component e t (Transform tr) s))"
        using live m t by (intro store_then_index_gained) (simp_all add: fits_def)
      have "s' = announce_added e t (Transform tr) True d src
          (addComponentToEntityMap e t (store_component e t (Transform tr) s))"
        using res TransformCtor Some by (simp add: add_new_def Let_def)
      then have "gained e t s s'"
        using gained_same_shape [OF g announce_added_same_shape] by simp
      then show ?thesis by (rule gained_inv [OF inv _ nb])
    qed
  next
    case (ClassCtor c)
    then have t: "t \<noteq> ''transform''" using reg registry_get_fits(2) by blast
    show ?thesis
    proof (cases "construct c d")
      case None
      with res ClassCtor inv show ?thesis by (simp add: add_new_def)
    next
      case (Some props)
      show ?thesis
      proof (cases "isComponent c")
        case False
        with res ClassCtor Some inv show ?thesis by (simp add: add_new_def)
      next
        case True
        define s2 where "s2 = addComponentToEntityMap e t (store_component e t (Instance props) s)"
        have g: "gained e t s s2"
          unfolding s2_def using live m t
          by (intro store_then_index_gained) (simp_all add: fits_def)
        have inv2: "store_inv s2" by (rule gained_inv [OF inv g nb])
        show ?thesis
        proof (cases "onAdd c e props")
          case None
          then have "s' = removeComponentFromEntityMap e t (delete_component e t s2)"
            using res ClassCtor Some True by (simp add: add_new_def Let_def s2_def)
          then have "lost e t s2 s'" by (simp add: delete_then_unindex_lost)
          with inv2 show ?thesis by (rule lost_inv)
        next
          case (Some props')
          have live2: "hasEntity s2 e" using live by (simp add: s2_def hasEntity_def)
          have has2: "hasComponent s2 e t" using g by (simp add: gained_def)
          have "s' = announce_added e t (Instance props') True d src
              (store_component e t (Instance props') s2)"
            using res ClassCtor \<open>construct c d = Some props\<close> True Some
            by (simp add: add_new_def Let_def s2_def)
          moreover have "same_shape s2 (store_component e t (Instance props') s2)"
            using live2 has2 t by (intro restore_same_shape) (simp_all add: fits_def)
          ultimately have "same_shape s2 s'"
            using same_shape_trans announce_added_same_shape by metis
          with inv2 show ?thesis by (blast intro: same_shape_inv)
        qed
      qed
    qed
  qed
qed

lemma update_existing_transform_inv:
  assumes "store_inv s" "update_existing_transform s e tr d src = Some (s', r)"
  shows "store_inv s'"
proof -
  let ?s1 = "update_transform e (\<lambda>_. fold transform_assign d tr) s"
  let ?go = "''parent'' \<in> fst ` set d
      \<and> parent (fold transform_assign d tr) \<noteq> get_prop d ''parent''"
  from assms(2) obtain s2 where
    s2: "(if ?go then map_option fst (setParent ?s1 e (get_prop d ''parent'') src)
          else Some ?s1) = Some s2"
    and s': "s' = s2 \<or> (\<exists>cur. s' = announce_added e ''transform'' (Transform cur) False d src s2)"
    unfolding update_existing_transform_def Let_def
    by (cases "if ?go then map_option fst (setParent ?s1 e (get_prop d ''parent'') src)
          else Some ?s1") (auto split: option.splits)
  have sh1: "same_shape s ?s1" by simp
  have "same_shape ?s1 s2"
  proof (cases ?go)
    case True
    with s2 obtain b where "setParent ?s1 e (get_prop d ''parent'') src = Some (s2, b)"
      by auto
    then show ?thesis by (rule same_shape_setParent)
  next
    case False
    with s2 show ?thesis by auto
  qed
  moreover have "same_shape s2 s'" using s' by auto
  ultimately have "same_shape s s'" using sh1 by (blast intro: same_shape_trans)
  with assms(1) show ?thesis by (blast intro: same_shape_inv)
qed

lemma update_existing_instance_inv:
  assumes "store_inv s" "hasEntity s e" "hasComponent s e t" "t \<noteq> ''transform''"
    and "update_existing_instance c s e t props d src = (s', r)"
  shows "store_inv s'"
proof -
  have sh: "same_shape s (store_component e t (Instance p) s)" for p
    using assms(2,3,4) by (intro restore_same_shape) (simp_all add: fits_def)
  have "same_shape s s'"
    using assms(5) sh
    by (auto simp: update_existing_instance_def Let_def split: option.splits
        intro: same_shape_trans [OF _ announce_added_same_shape])
  with assms(1) show ?thesis by (blast intro: same_shape_inv)
qed

lemma addComponent_inv:
  assumes inv: "store_inv s" and res: "addComponent reg s e t d = Some (s', r)"
  shows "store_inv s'"
proof (cases "blank t \<or> \<not> hasEntity s e \<or> registry_get reg t = None")
  case True
  with res inv show ?thesis by (auto simp: addComponent_def split: if_splits)
next
  case False
  then obtain k where k: "registry_get reg t = Some k" and live: "hasEntity s e"
    and nb: "\<not> blank t" by auto
  define src where "src = (if truthy (get_prop d ''source'') then get_prop d ''source''
      else JStr ''unknown'')"
  define cd where "cd = AList.delete ''source'' d"
  show ?thesis
  proof (cases "getComponent s e t")
    case None
    then have "\<not> hasComponent s e t" using live by (simp add: getComponent_None_iff)
    moreover have "add_new k s e t cd src = (s', r)"
      using res k live nb None by (simp add: addComponent_def Let_def src_def cd_def)
    ultimately show ?thesis using add_new_inv [OF inv live nb k] by blast
  next
    case (Some comp)
    then have has: "hasComponent s e t" using live getComponent_None_iff [of s e t] by simp
    show ?thesis
    proof (cases comp)
      case (Transform tr)
      then have "update_existing_transform s e tr cd src = Some (s', r)"
        using res k live nb Some by (simp add: addComponent_def Let_def src_def cd_def)
      with inv show ?thesis by (rule update_existing_transform_inv)
    next
      case (Instance props)
      then have nt: "t \<noteq> ''transform''"
        using Some live
        by (auto simp: getComponent_def lookup_component_def split: option.splits if_splits)
      show ?thesis
      proof (cases k)
        case TransformCtor
        with res k live nb Some Instance inv show ?thesis
          by (simp add: addComponent_def Let_def)
      next
        case (ClassCtor c)
        then have "update_existing_instance c s e t props cd src = (s', r)"
          using res k live nb Some Instance
          by (simp add: addComponent_def Let_def src_def cd_def)
        with inv live has nt show ?thesis by (rule update_existing_instance_inv)
      qed
    qed
  qed
qed

lemma detach_children_same_shape:
  "fold_option detach_child cs s = Some s' \<Longrightarrow> same_shape s s'"
  by (rule same_shape_fold_option [of detach_child]) (rule same_shape_detach_child)

lemma detach_transform_same_shape:
  assumes "detach_transform s e component = Some s2"
  shows "same_shape s s2"
proof -
  from assms obtain s1 where s1: "fold_option detach_child (children component) s = Some s1"
    and s2: "s2 = s1 \<or> (\<exists>v f. s2 = update_transform_val v f s1)"
    by (auto simp: detach_transform_def Let_def split: option.splits if_splits)
  have "same_shape s s1" using s1 by (rule detach_children_same_shape)
  moreover have "same_shape s1 s2" using s2 by auto
  ultimately show ?thesis by (rule same_shape_trans)
qed

lemma removeComponent_inv:
  assumes inv: "store_inv s" and res: "removeComponent s e t = Some (s', r)"
  shows "store_inv s'"
proof (cases r)
  case False
  with res have "s' = s"
    by (auto simp: removeComponent_def split: if_splits option.splits)
  with inv show ?thesis by simp
next
  case True
  from res True have pre: "\<not> blank t" "hasEntity s e"
    by (auto simp: removeComponent_def split: if_splits)
  with res True obtain m where m: "entityComponents s e = Some m"
    by (cases "entityComponents s e") (auto simp: removeComponent_def)
  with res True pre have found: "lookup_component m t \<noteq> None"
    by (auto simp: removeComponent_def split: if_splits)
  define cleanup where "cleanup =
    (case (if t = ''transform'' then transformSlot m else None) of
       None \<Rightarrow> Some s | Some component \<Rightarrow> detach_transform s e component)"
  from res pre m found obtain s2 where s2: "cleanup = Some s2"
    and s': "s' = emit (EntityUpdated e t [] True (JStr ''removeComponent''))
        (emit (ComponentRemoved e t)
          (removeComponentFromEntityMap e t (delete_component e t s2)))"
    by (cases cleanup) (auto simp: removeComponent_def cleanup_def)
  have sh: "same_shape s s2"
  proof (cases "if t = ''transform'' then transformSlot m else None")
    case None
    with s2 show ?thesis by (simp add: cleanup_def)
  next
    case (Some component)
    with s2 have "detach_transform s e component = Some s2" by (simp add: cleanup_def)
    then show ?thesis by (rule detach_transform_same_shape)
  qed
  have "lost e t s2 (removeComponentFromEntityMap e t (delete_component e t s2))"
    by (rule delete_then_unindex_lost)
  then have "lost e t s2 s'"
    unfolding s'
    by (blast intro: lost_same_shape same_shape_trans [OF same_shape_emit same_shape_emit])
  with sh have "lost e t s s'" by (rule same_shape_lost)
  with inv show ?thesis by (rule lost_inv)
qed

lemma fold_option_preserves:
  assumes "\<And>x s s'. P s \<Longrightarrow> f x s = Some s' \<Longrightarrow> P s'"
  shows "P s \<Longrightarrow> fold_option f xs s = Some s' \<Longrightarrow> P s'"
proof (induction xs arbitrary: s)
  case Nil
  then show ?case by simp
next
  case (Cons x xs)
  then obtain s1 where "f x s = Some s1" "fold_option f xs s1 = Some s'"
    by (auto split: option.splits)
  with Cons.IH Cons.prems(1) assms show ?case by blast
qed

lemma createEntity_inv:
  assumes "store_inv s" "createEntity s = Inr (j, s')"
  shows "store_inv s'"
proof -
  note sp = createEntity_spec [OF assms(2)]
  have hc: "hasComponent s' i t = hasComponent s i t" for i t
    using sp(2,4,6)
    by (auto simp: hasComponent_def hasEntity_def empty_components_def lookup_component_def)
  have ix: "index_of s' t = index_of s t" for t
    using sp(7) by (simp add: index_of_def)
  show ?thesis
    using assms(1) sp(4,6) unfolding store_inv_def hc ix by auto
qed

lemma fold_unindex_frame:
  "entities (fold (removeComponentFromEntityMap e) ts s) = entities s"
  "entityComponents (fold (removeComponentFromEntityMap e) ts s) = entityComponents s"
  "set (index_of (fold (removeComponentFromEntityMap e) ts s) t) =
     (if t \<in> set ts then set (index_of s t) - {e} else set (index_of s t))"
  by (induction ts arbitrary: s) auto

lemma lookup_in_component_types:
  "lookup_component m t \<noteq> None \<Longrightarrow> t \<in> set (component_types m)"
  by (auto simp: lookup_component_def component_types_def split: if_splits dest: map_of_SomeD
      intro: rev_image_eqI)

lemma purge_inv:
  assumes "store_inv s"
  shows "store_inv (purge e s)"
proof -
  define ts where "ts = (case entityComponents s e of None \<Rightarrow> [] | Some m \<Rightarrow> component_types m)"
  define s4 where "s4 = fold (removeComponentFromEntityMap e) ts s"
  have p: "purge e s = s4\<lparr>entityComponents := (entityComponents s4)(e := None),
      entities := set_delete e (entities s4)\<rparr>"
    by (simp add: purge_def s4_def ts_def Let_def split: option.splits)
  have ents: "set (entities (purge e s)) = set (entities s) - {e}"
    by (simp add: p s4_def fold_unindex_frame set_delete_def)
  have comps: "entityComponents (purge e s) = (entityComponents s)(e := None)"
    by (simp add: p s4_def fold_unindex_frame)
  have hc: "hasComponent (purge e s) i t = (hasComponent s i t \<and> i \<noteq> e)" for i t
    using ents comps by (auto simp: hasComponent_def hasEntity_def)
  have in_ts: "t \<in> set ts" if "hasComponent s e t" for t
    using that
    by (auto simp: ts_def hasComponent_def split: if_splits option.splits
        intro: lookup_in_component_types)
  have "index_of (purge e s) t = index_of s4 t" for t
    by (simp add: p index_of_def)
  then have ix: "set (index_of (purge e s) t) =
      (if t \<in> set ts then set (index_of s t) - {e} else set (index_of s t))" for t
    by (simp add: s4_def fold_unindex_frame)
  have ix': "(i \<in> set (index_of (purge e s) t)) = (hasComponent s i t \<and> i \<noteq> e)" for i t
    using assms in_ts [of t] unfolding ix store_inv_def by auto
  show ?thesis
    using assms ents comps unfolding store_inv_def hc ix' by auto
qed

lemma setParent_null_returns: "setParent s i JNull src \<noteq> None"
proof -
  have "ancestor_check s i JNull = Some True"
    by (subst ancestor_check.simps) simp
  then show ?thesis
    by (auto simp: setParent_def Let_def split: option.splits)
qed

lemma same_shape_detach_from_parent: "same_shape s (detach_from_parent s i)"
  by (auto simp: detach_from_parent_def split: option.splits dest: same_shape_setParent)

lemma forced_cleanup_absorbs:
  "forced_cleanup i (update_transform i f s) = forced_cleanup i s"
  "forced_cleanup i (fold (removeComponentFromEntityMap i) ts s) = forced_cleanup i s"
  "forced_cleanup i (purge i s) = forced_cleanup i s"
proof -
  show "forced_cleanup i (update_transform i f s) = forced_cleanup i s"
    by (simp add: forced_cleanup_def cleanupEntityFromComponentMap_def update_transform_def
        split: option.splits)
  have one: "forced_cleanup i (removeComponentFromEntityMap i t s') = forced_cleanup i s'"
    for t s'
    by (auto simp: forced_cleanup_def cleanupEntityFromComponentMap_def
        removeComponentFromEntityMap_def set_delete_def fun_eq_iff split: option.splits)
  show all: "forced_cleanup i (fold (removeComponentFromEntityMap i) ts s') = forced_cleanup i s'"
    for ts s'
    by (induction ts arbitrary: s') (simp_all add: one)
  have "forced_cleanup i (purge i s) =
      forced_cleanup i (case entityComponents s i of
                  None \<Rightarrow> s
                | Some m \<Rightarrow> fold (removeComponentFromEntityMap i) (component_types m) s)"
    by (simp add: purge_def Let_def forced_cleanup_def cleanupEntityFromComponentMap_def
        set_delete_def)
  also have "\<dots> = forced_cleanup i s"
    by (simp add: all split: option.splits)
  finally show "forced_cleanup i (purge i s) = forced_cleanup i s" .
qed

lemma forced_cleanup_inv:
  assumes "store_inv s"
  shows "store_inv (forced_cleanup e s)"
proof -
  have hc: "hasComponent (forced_cleanup e s) i t = (hasComponent s i t \<and> i \<noteq> e)" for i t
    by (auto simp: forced_cleanup_def cleanupEntityFromComponentMap_def hasComponent_def
        hasEntity_def set_delete_def)
  have ix: "(i \<in> set (index_of (forced_cleanup e s) t)) = (i \<in> set (index_of s t) \<and> i \<noteq> e)"
    for i t
    by (auto simp: forced_cleanup_def cleanupEntityFromComponentMap_def index_of_def
        set_delete_def split: option.splits)
  have ents: "set (entities (forced_cleanup e s)) = set (entities s) - {e}"
    by (auto simp: forced_cleanup_def cleanupEntityFromComponentMap_def set_delete_def)
  have comps: "i \<noteq> e \<Longrightarrow> entityComponents (forced_cleanup e s) i = entityComponents s i" for i
    by (simp add: forced_cleanup_def cleanupEntityFromComponentMap_def)
  show ?thesis
    using assms ents comps unfolding store_inv_def hc ix by auto
qed

lemma remove_children_preserves:
  assumes "\<And>s c res. P s \<Longrightarrow> rm s c = Some res \<Longrightarrow> P (fst res)"
  shows "P s \<Longrightarrow> P (remove_children rm cs s)"
  unfolding remove_children_def
proof (induction cs arbitrary: s)
  case Nil
  then show ?case by simp
next
  case (Cons x cs)
  have "P (case x of
             JNum c \<Rightarrow> if hasEntity s c
                       then (case rm s c of None \<Rightarrow> s | Some res \<Rightarrow> fst res) else s
           | _ \<Rightarrow> s)"
    using Cons.prems assms by (auto split: jsval.splits option.splits)
  from Cons.IH [OF this] show ?case by simp
qed

lemma frame_body_inv:
  assumes rm: "\<And>s c res. store_inv s \<Longrightarrow> rm s c = Some res \<Longrightarrow> store_inv (fst res)"
    and inv: "store_inv s"
  shows "store_inv (fst (frame_body rm stop s e))"
proof -
  let ?clear = "\<lambda>t::transform. t\<lparr>children := [], parent := JNull\<rparr>"
  define s3 where "s3 =
     (case getTransform s e of
        None \<Rightarrow> s
      | Some tr \<Rightarrow>
          if stop = Some 0 then s
          else
            let s1 = (if parent tr \<noteq> JNull then detach_from_parent s e else s);
                childrenIds = getChildren s1 e;
                s2 = remove_children rm
                       (case stop of None \<Rightarrow> childrenIds | Some k \<Rightarrow> take (k - 1) childrenIds) s1
            in if stop = None then update_transform e ?clear s2 else s2)"
  have i3: "store_inv s3"
  proof (cases "getTransform s e")
    case None
    with inv show ?thesis by (simp add: s3_def)
  next
    case (Some tr)
    define s1 where "s1 = (if parent tr \<noteq> JNull then detach_from_parent s e else s)"
    have "same_shape s s1" by (simp add: s1_def same_shape_detach_from_parent)
    with inv have i1: "store_inv s1" by (blast intro: same_shape_inv)
    have i2: "store_inv (remove_children rm cs s1)" for cs
      using rm i1 by (rule remove_children_preserves)
    have "store_inv (update_transform e ?clear (remove_children rm cs s1))" for cs
      using i2 [of cs] by (blast intro: same_shape_inv same_shape_update_transform)
    with i2 inv Some show ?thesis
      by (simp add: s3_def Let_def s1_def)
  qed
  have eq: "frame_body rm stop s e =
      (if stop = None then (emit (EntityRemoved e) (purge e s3), True)
       else (forced_cleanup e s3, False))"
    by (simp add: frame_body_def s3_def Let_def)
  show ?thesis
  proof (cases "stop = None")
    case True
    from i3 have "store_inv (purge e s3)" by (rule purge_inv)
    then have "store_inv (emit (EntityRemoved e) (purge e s3))"
      by (blast intro: same_shape_inv same_shape_emit)
    then show ?thesis unfolding eq using True by simp
  next
    case False
    from forced_cleanup_inv [OF i3, of e] show ?thesis unfolding eq using False by auto
  qed
qed

lemma remove_nested_inv:
  "store_inv s \<Longrightarrow> remove_nested fl depth s e = Some (s', r) \<Longrightarrow> store_inv s'"
proof (induction depth arbitrary: s e s' r)
  case 0
  then show ?case by simp
next
  case (Suc depth)
  show ?case
  proof (cases "hasEntity s e")
    case False
    with Suc.prems show ?thesis by (simp add: remove_nested.simps(2))
  next
    case True
    let ?rm = "\<lambda>s' c. remove_nested fl depth s' c"
    have rm: "store_inv a \<Longrightarrow> ?rm a c = Some res \<Longrightarrow> store_inv (fst res)" for a c res
      using Suc.IH [of a c "fst res" "snd res"] by simp
    from Suc.prems(2) True
    have "s' = fst (frame_body ?rm (fl depth s e) s e)"
      by (auto simp: remove_nested.simps(2))
    with frame_body_inv [of ?rm s, OF rm Suc.prems(1)] show ?thesis by simp
  qed
qed

lemma removeEntity_inv:
  assumes "store_inv s"
  shows "store_inv (fst (removeEntity fl depth s e))"
proof (cases "hasEntity s e")
  case False
  with assms show ?thesis by (simp add: removeEntity_def)
next
  case True
  have rm: "store_inv a \<Longrightarrow> remove_nested fl depth a c = Some res \<Longrightarrow> store_inv (fst res)"
    for a c res
    using remove_nested_inv [of a fl depth c "fst res" "snd res"] by simp
  from frame_body_inv [of "remove_nested fl depth" s, OF rm assms] True show ?thesis
    by (simp add: removeEntity_def)
qed

lemma empty_store_inv:
  "entities s = [] \<Longrightarrow> componentEntityMap s = (\<lambda>_. None) \<Longrightarrow> store_inv s"
  by (simp add: store_inv_def hasComponent_def hasEntity_def index_of_def)

lemma clear_inv: "store_inv (clear fl depth s)"
  by (auto simp: clear_def Let_def emit_def intro!: empty_store_inv)

lemma removeComponent_False:
  assumes "removeComponent s e t = Some (s', False)"
  shows "s' = s" "blank t \<or> \<not> hasComponent s e t"
  using assms
  by (auto simp: removeComponent_def hasComponent_def split: if_splits option.splits)

lemma removeComponent_True:
  assumes res: "removeComponent s e t = Some (s', True)"
  shows "\<exists>s2. same_shape s s2
      \<and> s' = emit (EntityUpdated e t [] True (JStr ''removeComponent''))
          (emit (ComponentRemoved e t)
            (removeComponentFromEntityMap e t (delete_component e t s2)))"
proof -
  from res have pre: "\<not> blank t" "hasEntity s e"
    by (auto simp: removeComponent_def split: if_splits)
  with res obtain m where m: "entityComponents s e = Some m"
    by (cases "entityComponents s e") (auto simp: removeComponent_def)
  with res pre have found: "lookup_component m t \<noteq> None"
    by (auto simp: removeComponent_def split: if_splits)
  define cleanup where "cleanup =
    (case (if t = ''transform'' then transformSlot m else None) of
       None \<Rightarrow> Some s | Some component \<Rightarrow> detach_transform s e component)"
  from res pre m found obtain s2 where s2: "cleanup = Some s2"
    and s': "s' = emit (EntityUpdated e t [] True (JStr ''removeComponent''))
        (emit (ComponentRemoved e t)
          (removeComponentFromEntityMap e t (delete_component e t s2)))"
    by (cases cleanup) (auto simp: removeComponent_def cleanup_def)
  have sh: "same_shape s s2"
  proof (cases "if t = ''transform'' then transformSlot m else None")
    case None
    with s2 show ?thesis by (simp add: cleanup_def)
  next
    case (Some component)
    with s2 have "detach_transform s e component = Some s2" by (simp add: cleanup_def)
    then show ?thesis by (rule detach_transform_same_shape)
  qed
  with s' show ?thesis by blast
qed

lemma removeComponent_gone:
  assumes "store_inv s" "removeComponent s e t = Some (s', r)"
  shows "\<not> hasComponent s' e t" "\<And>t'. hasComponent s' e t' \<Longrightarrow> hasComponent s e t'"
proof -
  have "\<not> hasComponent s' e t \<and> (\<forall>t'. hasComponent s' e t' \<longrightarrow> hasComponent s e t')"
  proof (cases r)
    case False
    with assms(2) removeComponent_False [of s e t s']
    have same: "s' = s" and "blank t \<or> \<not> hasComponent s e t" by simp_all
    with assms(1) have "\<not> hasComponent s e t" by (auto simp: store_inv_def)
    with same show ?thesis by simp
  next
    case True
    with assms(2) removeComponent_True [of s e t s'] obtain s2 where sh: "same_shape s s2"
      and s': "s' = emit (EntityUpdated e t [] True (JStr ''removeComponent''))
          (emit (ComponentRemoved e t)
            (removeComponentFromEntityMap e t (delete_component e t s2)))"
      by auto
    have "hasComponent s' i t' = (hasComponent s2 i t' \<and> \<not> (i = e \<and> t' = t))" for i t'
      unfolding s' by (simp add: hasComponent_delete_component)
    with sh show ?thesis by (auto simp: same_shape_def)
  qed
  then show "\<not> hasComponent s' e t" "\<And>t'. hasComponent s' e t' \<Longrightarrow> hasComponent s e t'"
    by blast+
qed

lemma removeComponent_live:
  assumes "removeComponent s e t = Some (s', r)"
  shows "entities s' = entities s"
proof (cases r)
  case False
  with assms removeComponent_False(1) [of s e t s'] show ?thesis by simp
next
  case True
  with assms removeComponent_True [of s e t s'] obtain s2 where sh: "same_shape s s2"
    and s': "s' = emit (EntityUpdated e t [] True (JStr ''removeComponent''))
        (emit (ComponentRemoved e t)
          (removeComponentFromEntityMap e t (delete_component e t s2)))"
    by auto
  from sh have "entities s2 = entities s" by (simp add: same_shape_def)
  then show ?thesis unfolding s' by simp
qed

lemma strip_components:
  assumes "store_inv s"
    and "fold_option (\<lambda>t s'. map_option fst (removeComponent s' i t)) ts s = Some s1"
  shows "store_inv s1 \<and> entities s1 = entities s
      \<and> (\<forall>t \<in> set ts. \<not> hasComponent s1 i t)
      \<and> (\<forall>t. hasComponent s1 i t \<longrightarrow> hasComponent s i t)"
  using assms
proof (induction ts arbitrary: s)
  case Nil
  then show ?case by simp
next
  case (Cons t ts)
  from Cons.prems(2) obtain s0 r where r: "removeComponent s i t = Some (s0, r)"
    and rest: "fold_option (\<lambda>t s'. map_option fst (removeComponent s' i t)) ts s0 = Some s1"
    by (auto split: option.splits)
  have inv0: "store_inv s0" using Cons.prems(1) r by (rule removeComponent_inv)
  note gone = removeComponent_gone [OF Cons.prems(1) r]
  from Cons.IH [OF inv0 rest] have ih: "store_inv s1" "entities s1 = entities s0"
    "\<forall>t \<in> set ts. \<not> hasComponent s1 i t" "\<forall>t. hasComponent s1 i t \<longrightarrow> hasComponent s0 i t"
    by simp_all
  from ih(4) gone have "\<not> hasComponent s1 i t" "\<forall>t. hasComponent s1 i t \<longrightarrow> hasComponent s i t"
    by blast+
  with ih removeComponent_live [OF r] show ?case by simp
qed

lemma fresh_map_inv:
  assumes "store_inv s" "\<forall>t. \<not> hasComponent s i t"
  shows "store_inv (s\<lparr>entityComponents := (entityComponents s)(i \<mapsto> empty_components)\<rparr>)"
proof -
  let ?s' = "s\<lparr>entityComponents := (entityComponents s)(i \<mapsto> empty_components)\<rparr>"
  have hc: "hasComponent ?s' j t = hasComponent s j t" for j t
    using assms(2) [rule_format, of t]
    by (auto simp: hasComponent_def hasEntity_def empty_components_def lookup_component_def)
  have ix: "index_of ?s' t = index_of s t" for t by (simp add: index_of_def)
  show ?thesis
    using assms(1) unfolding store_inv_def hc ix by auto
qed

lemma restoreSingleEntityBase_inv:
  assumes "store_inv s" "restoreSingleEntityBase s i = Some s'"
  shows "store_inv s'"
proof (cases "hasEntity s i")
  case True
  define ts where "ts = (case entityComponents s i of None \<Rightarrow> [] | Some m \<Rightarrow> component_types m)"
  from assms(2) True obtain s1 where
    s1: "fold_option (\<lambda>t s'. map_option fst (removeComponent s' i t)) ts s = Some s1"
    and s': "s' = s1\<lparr>entityComponents := (entityComponents s1)(i \<mapsto> empty_components)\<rparr>"
    by (cases "entityComponents s i")
      (auto simp: restoreSingleEntityBase_def ts_def split: option.splits)
  from strip_components [OF assms(1) s1]
  have inv1: "store_inv s1" and gone: "\<forall>t \<in> set ts. \<not> hasComponent s1 i t"
    and mono: "\<forall>t. hasComponent s1 i t \<longrightarrow> hasComponent s i t"
    by simp_all
  have "hasComponent s i t \<Longrightarrow> t \<in> set ts" for t
    by (auto simp: ts_def hasComponent_def split: if_splits option.splits
        intro: lookup_in_component_types)
  with gone mono have "\<forall>t. \<not> hasComponent s1 i t" by blast
  with inv1 show ?thesis unfolding s' by (rule fresh_map_inv)
next
  case False
  let ?s0 = "s\<lparr>entities := set_add i (entities s),
      entityComponents := (entityComponents s)(i \<mapsto> empty_components)\<rparr>"
  have hc: "hasComponent s' j t = hasComponent s j t" for j t
    using assms(2) False
    by (auto simp: restoreSingleEntityBase_def hasComponent_def hasEntity_def set_add_def
        empty_components_def lookup_component_def split: option.splits if_splits)
  have ix: "index_of s' t = index_of s t" for t
    using assms(2) False by (auto simp: restoreSingleEntityBase_def index_of_def)
  have live: "\<forall>j \<in> set (entities s'). entityComponents s' j \<noteq> None"
    using assms False
    by (auto simp: restoreSingleEntityBase_def store_inv_def set_add_def hasEntity_def)
  show ?thesis
    using assms(1) live unfolding store_inv_def hc ix by auto
qed

lemma restore_component_inv:
  assumes "store_inv (fst acc)" "restore_component reg i entry acc = Some acc'"
  shows "store_inv (fst acc')"
  using assms
  by (auto simp: restore_component_def split: option.splits if_splits prod.splits
      dest: addComponent_inv)

lemma restoreEntityComponents_inv:
  assumes "store_inv s" "restoreEntityComponents reg s i comps = Some (s', ok)"
  shows "store_inv s'"
proof -
  have "store_inv (fst (s', ok))"
  proof (rule fold_option_preserves [where P = "\<lambda>acc. store_inv (fst acc)"
        and f = "restore_component reg i" and s = "(s, True)" and xs = comps])
    show "store_inv (fst (s, True))" using assms(1) by simp
    show "fold_option (restore_component reg i) comps (s, True) = Some (s', ok)"
      using assms(2) by (simp add: restoreEntityComponents_def)
  qed (rule restore_component_inv)
  then show ?thesis by simp
qed

lemma restore_entity_inv:
  assumes "store_inv (p_store p)" "restore_entity reg entry p = Some p'"
  shows "store_inv (p_store p')"
proof (cases "case entry of None \<Rightarrow> None | Some r \<Rightarrow> map_option (\<lambda>i. (i, r)) (rec_id r)")
  case None
  with assms show ?thesis by (auto simp: restore_entity_def)
next
  case (Some ir)
  obtain i r where ir: "ir = (i, r)" by (cases ir)
  from assms(2) Some ir obtain s1 s2 ok where
    s1: "restoreSingleEntityBase (p_store p) i = Some s1"
    and s2: "restoreEntityComponents reg s1 i (rec_components r) = Some (s2, ok)"
    and p': "p_store p' = s2"
    by (auto simp: restore_entity_def split: option.splits bool.splits)
  from assms(1) s1 have "store_inv s1" by (rule restoreSingleEntityBase_inv)
  from this s2 have "store_inv s2" by (rule restoreEntityComponents_inv)
  with p' show ?thesis by simp
qed

lemma rebuild_parent_same_shape:
  assumes "rebuild_parent doc restored i acc = Some acc'"
  shows "same_shape (fst acc) (fst acc')"
  using assms
  by (cases acc)
    (auto simp: rebuild_parent_def Let_def split: option.splits if_splits
      dest: same_shape_setParent)

lemma deserialize_inv:
  assumes "deserialize reg fl depth s input = Some (s', ok)"
  shows "store_inv s'"
proof -
  define s0 where "s0 = clear fl depth s"
  then have c: "clear fl depth s = s0" by simp
  have inv0: "store_inv s0" unfolding s0_def by (rule clear_inv)
  show ?thesis
  proof (cases input)
    case None
    with assms c inv0 show ?thesis by (simp add: deserialize_def)
  next
    case (Some doc)
    let ?p0 = "\<lparr>p_store = s0, highestId = 0, restoredEntityIds = [], allRestored = True\<rparr>"
    from assms c Some obtain p s2 linked where
      p: "fold_option (restore_entity reg) doc ?p0 = Some p"
      and l: "fold_option (rebuild_parent doc (restoredEntityIds p)) (restoredEntityIds p)
                (p_store p, True) = Some (s2, linked)"
      and s': "\<exists>n. s' = emit SceneImported (s2\<lparr>nextEntityId := n\<rparr>)"
      by (auto simp: deserialize_def Let_def split: option.splits)
    have "store_inv (p_store p)"
    proof (rule fold_option_preserves [where P = "\<lambda>q. store_inv (p_store q)"
          and f = "restore_entity reg" and s = ?p0 and xs = doc])
      show "store_inv (p_store ?p0)" using inv0 by simp
      show "fold_option (restore_entity reg) doc ?p0 = Some p" by (rule p)
    qed (rule restore_entity_inv)
    moreover have "same_shape (p_store p) (fst (s2, linked))"
    proof (rule fold_option_preserves [where P = "\<lambda>acc. same_shape (p_store p) (fst acc)"
          and f = "rebuild_parent doc (restoredEntityIds p)" and s = "(p_store p, True)"
          and xs = "restoredEntityIds p"])
      show "same_shape (p_store p) (fst (p_store p, True))" by simp
      show "fold_option (rebuild_parent doc (restoredEntityIds p)) (restoredEntityIds p)
          (p_store p, True) = Some (s2, linked)" by (rule l)
    next
      fix x acc acc'
      assume "same_shape (p_store p) (fst acc)"
        "rebuild_parent doc (restoredEntityIds p) x acc = Some acc'"
      then show "same_shape (p_store p) (fst acc')"
        using rebuild_parent_same_shape [of doc "restoredEntityIds p" x acc acc']
        by (auto intro: same_shape_trans)
    qed
    ultimately have "store_inv s2" by (auto intro: same_shape_inv)
    moreover have "same_shape s2 (emit SceneImported (s2\<lparr>nextEntityId := n\<rparr>))" for n
      by (simp add: same_shape_def emit_def hasComponent_def hasEntity_def index_of_def)
    ultimately show ?thesis using s' by (auto intro: same_shape_inv)
  qed
qed

lemma store_step_inv:
  assumes "store_inv s" "store_step reg fl depth c s = Some s'"
  shows "store_inv s'"
proof (cases c)
  case DoCreateEntity
  with assms show ?thesis
    by (auto split: sum.splits dest: createEntity_inv)
next
  case (DoRemoveEntity i)
  with assms removeEntity_inv [of s fl depth i] show ?thesis by auto
next
  case (DoAddComponent i t d)
  with assms show ?thesis by (auto dest: addComponent_inv)
next
  case (DoRemoveComponent i t)
  with assms show ?thesis by (auto dest: removeComponent_inv)
next
  case (DoSetParent i p)
  with assms show ?thesis by (auto dest: same_shape_setParent same_shape_inv)
next
  case DoClear
  with assms clear_inv [of fl depth s] show ?thesis by auto
next
  case (DoDeserialize input)
  with assms show ?thesis by (auto dest: deserialize_inv)
qed

lemma store_run_inv:
  assumes "store_inv s" "store_run reg fl depth cs s = Some s'"
  shows "store_inv s'"
proof (rule fold_option_preserves [where P = store_inv and f = "store_step reg fl depth"
      and s = s and xs = cs])
  show "store_inv s" by (rule assms(1))
  show "fold_option (store_step reg fl depth) cs s = Some s'"
    using assms(2) by (simp add: store_run_def)
qed (rule store_step_inv)

lemma new_EntityManager_inv: "store_inv new_EntityManager"
  by (rule empty_store_inv) (simp_all add: new_EntityManager_def)

text \<open>The calls that claim C4 is about.\<close>

fun component_call :: "store_call \<Rightarrow> bool" where
  "component_call (DoAddComponent i t d) = True"
| "component_call (DoRemoveComponent i t) = True"
| "component_call c = False"

definition swap_calls :: "store_call list" where
  "swap_calls =
     [DoRemoveComponent 1 ''transform'',
      DoAddComponent 2 ''transform'' [(''position'', JArr [JNum 5, JNum 0, JNum 0])],
      DoAddComponent 1 ''velocity'' []]"

text \<open>
  Claim C4. Take any store reached from a fresh one by public calls of any kind -
  \<^verbatim>\<open>removeEntity\<close>, \<^verbatim>\<open>clear\<close> and \<^verbatim>\<open>deserialize\<close> included, with whatever room the stack has and
  wherever the nested removals are interrupted - and run any sequence of \<^verbatim>\<open>addComponent\<close> and
  \<^verbatim>\<open>removeComponent\<close> calls on it. If the calls return, then for every type name \<open>t\<close> the
  entities that \<^verbatim>\<open>getEntitiesWithComponent(t)\<close> lists are exactly the live entities for which
  \<^verbatim>\<open>hasComponent\<close> is true.
\<close>

theorem index_consistency:
  "store_run reg fl depth cs new_EntityManager = Some s \<and> list_all component_call ops
     \<and> store_run reg fl' depth' ops s = Some s'
   \<longrightarrow> set (getEntitiesWithComponent s' t) = {i \<in> set (entities s'). hasComponent s' i t}"
proof
  assume a: "store_run reg fl depth cs new_EntityManager = Some s \<and> list_all component_call ops
     \<and> store_run reg fl' depth' ops s = Some s'"
  then have "store_inv s" using store_run_inv [OF new_EntityManager_inv] by blast
  with a have "store_inv s'" using store_run_inv by blast
  then have "index_consistent s'" by (rule store_inv_consistent)
  then show "set (getEntitiesWithComponent s' t) = {i \<in> set (entities s'). hasComponent s' i t}"
    by (simp add: index_consistent_def)
qed

lemmas component_eval =
  removeComponent_def detach_transform_def detach_child_def getEntitiesWithComponent_def
  hasComponent_def

lemma swap_run:
  "map_option (\<lambda>s'. (entities s', getEntitiesWithComponent s' ''transform'',
        hasComponent s' 1 ''transform'', hasComponent s' 2 ''transform''))
     (store_run only_transform uninterrupted 1 swap_calls family_store) = Some ([1, 2], [2], False, True)"
  by (simp add: swap_calls_def store_eval component_eval family_store_def only_transform_def
      default_transform_def)

text \<open>
  The theorem on the family store: after removing the transform of 1, updating that of 2
  and a rejected \<^verbatim>\<open>addComponent\<close> of an unregistered type, the index lists entity 2 alone.
\<close>

theorem index_consistency_witness:
  "store_run only_transform uninterrupted 1 family_calls new_EntityManager = Some family_store
   \<and> list_all component_call swap_calls
   \<and> map_option (\<lambda>s'. (getEntitiesWithComponent s' ''transform'',
         set (getEntitiesWithComponent s' ''transform'')
           = {i \<in> set (entities s'). hasComponent s' i ''transform''}))
       (store_run only_transform uninterrupted 1 swap_calls family_store) = Some ([2], True)"
proof -
  have l: "list_all component_call swap_calls" by (simp add: swap_calls_def)
  from swap_run obtain s' where s': "store_run only_transform uninterrupted 1 swap_calls family_store = Some s'"
    and g: "getEntitiesWithComponent s' ''transform'' = [2]"
    by auto
  from index_consistency [of only_transform uninterrupted 1 family_calls family_store swap_calls
      uninterrupted 1 s'
      "''transform''"] family_store_reached l s'
  have "set (getEntitiesWithComponent s' ''transform'')
      = {i \<in> set (entities s'). hasComponent s' i ''transform''}"
    by blast
  with family_store_reached l s' g show ?thesis by simp
qed

subsection \<open>Removing an entity that is its own child\<close>

text \<open>
  A transform created with \<^verbatim>\<open>children: [1]\<close> on entity 1 makes the entity its own child:
  \<^verbatim>\<open>removeEntity(1)\<close> then recurses on the same entity until the innermost call runs
  out of stack, the child loop's catch block swallows that error, and the frames above
  complete on a store the inner ones have already emptied.  Whatever room the stack has
  and wherever a nested frame is interrupted, the call of the user returns true and
  leaves no trace of the entity in the entity list, the component maps and the index.
\<close>

definition self_child_calls :: "store_call list" where
  "self_child_calls =
     [DoCreateEntity, DoAddComponent 1 ''transform'' [(''children'', JArr [JNum 1])]]"

text \<open>Entity 1 alone, a root that is its own child.\<close>

definition self_child :: "store \<Rightarrow> bool" where
  "self_child s =
     (entities s = [1]
      \<and> (case entityComponents s 1 of
            None \<Rightarrow> False
          | Some m \<Rightarrow>
              others m = []
              \<and> (case transformSlot m of
                    None \<Rightarrow> False
                  | Some tr \<Rightarrow> parent tr = JNull \<and> children tr = [JNum 1]))
      \<and> componentEntityMap s = (\<lambda>t. if t = ''transform'' then Some [1] else None))"

definition emptied :: "store \<Rightarrow> bool" where
  "emptied s = (entities s = [] \<and> entityComponents s 1 = None \<and> (\<forall>t. index_of s t = []))"

lemma self_child_reached:
  "case store_run only_transform uninterrupted depth self_child_calls new_EntityManager of
     None \<Rightarrow> False | Some s \<Rightarrow> self_child s"
  by (simp add: self_child_calls_def only_transform_def store_eval self_child_def truthy.simps
      fun_eq_iff)

lemma purge_emptied: "emptied s \<Longrightarrow> emptied (purge 1 s)"
  by (simp add: emptied_def purge_def index_of_def set_delete_def)

lemma purge_self_child:
  assumes "self_child s"
  shows "emptied (purge 1 (update_transform 1 f s))"
  using assms
  by (auto simp: self_child_def emptied_def purge_def update_transform_def component_types_def
      removeComponentFromEntityMap_def index_of_def set_delete_def Let_def
      split: option.splits if_splits)

lemma forced_cleanup_emptied:
  assumes "self_child s \<or> emptied s"
  shows "emptied (forced_cleanup 1 s)"
proof -
  have "index_of (forced_cleanup 1 s) t = []" for t
  proof (cases "componentEntityMap s t")
    case None
    then show ?thesis
      by (simp add: forced_cleanup_def cleanupEntityFromComponentMap_def index_of_def)
  next
    case (Some ids)
    with assms have "ids = [1] \<or> ids = []"
      by (auto simp: self_child_def emptied_def index_of_def split: option.splits if_splits)
    with Some show ?thesis
      by (auto simp: forced_cleanup_def cleanupEntityFromComponentMap_def index_of_def
          set_delete_def)
  qed
  moreover have "entities (forced_cleanup 1 s) = []"
    using assms
    by (auto simp: self_child_def emptied_def forced_cleanup_def
        cleanupEntityFromComponentMap_def set_delete_def)
  ultimately show ?thesis
    by (simp add: emptied_def forced_cleanup_def cleanupEntityFromComponentMap_def)
qed

lemma emptied_unlink: "emptied s \<Longrightarrow> update_transform 1 f s = s"
  by (simp add: emptied_def update_transform_def)

lemma emptied_emit [simp]: "emptied (emit e s) = emptied s"
  by (simp add: emptied_def emit_def index_of_def)

lemma frame_self_child:
  assumes rm: "\<And>a. self_child a \<Longrightarrow>
      rm a 1 = None \<or> (\<exists>s' b. rm a 1 = Some (s', b) \<and> emptied s')"
    and s: "self_child s"
  shows "emptied (fst (frame_body rm stop s 1)) \<and> snd (frame_body rm stop s 1) = (stop = None)"
proof -
  from s obtain m tr where m: "entityComponents s 1 = Some m" "transformSlot m = Some tr"
    "parent tr = JNull" "children tr = [JNum 1]" "entities s = [1]"
    by (auto simp: self_child_def split: option.splits)
  then have gt: "getTransform s 1 = Some tr" and gc: "getChildren s 1 = [JNum 1]"
    and live: "hasEntity s 1"
    by (simp_all add: getTransform_def getChildren_def hasEntity_def)
  have child: "self_child (remove_children rm cs s) \<or> emptied (remove_children rm cs s)"
    if "cs = [] \<or> cs = [JNum 1]" for cs
    using that rm [OF s] s live
    by (auto simp: remove_children_def)
  show ?thesis
  proof (cases stop)
    case None
    from child [of "[JNum 1]"]
    have "emptied (purge 1 (update_transform 1 (\<lambda>t. t\<lparr>children := [], parent := JNull\<rparr>)
        (remove_children rm [JNum 1] s)))"
      by (auto simp: purge_self_child emptied_unlink purge_emptied)
    with None gt gc m(3) show ?thesis
      by (simp add: frame_body_def Let_def)
  next
    case (Some k)
    show ?thesis
    proof (cases k)
      case 0
      with Some gt forced_cleanup_emptied [of s] s show ?thesis
        by (simp add: frame_body_def Let_def)
    next
      case (Suc j)
      have "take j [JNum 1] = [] \<or> take j [JNum (1::int)] = [JNum 1]" by (cases j) simp_all
      from child [OF this] forced_cleanup_emptied
      have "emptied (forced_cleanup 1 (remove_children rm (take j [JNum 1]) s))" by blast
      with Some Suc gt gc m(3) show ?thesis
        by (simp add: frame_body_def Let_def)
    qed
  qed
qed

lemma remove_nested_self_child:
  "self_child s \<Longrightarrow>
     remove_nested fl depth s 1 = None
     \<or> (\<exists>s' b. remove_nested fl depth s 1 = Some (s', b) \<and> emptied s')"
proof (induction depth arbitrary: s)
  case 0
  show ?case by simp
next
  case (Suc depth)
  from Suc.prems have live: "hasEntity s 1" by (simp add: self_child_def hasEntity_def)
  from frame_self_child [of "\<lambda>s' c. remove_nested fl depth s' c" s "fl depth s 1"]
    Suc.IH Suc.prems
  have "emptied (fst (frame_body (\<lambda>s' c. remove_nested fl depth s' c) (fl depth s 1) s 1))"
    by blast
  with live show ?case
    by (simp add: remove_nested.simps(2) prod_eq_iff)
qed

lemma removeEntity_self_child:
  assumes "self_child s"
  shows "emptied (fst (removeEntity fl depth s 1)) \<and> snd (removeEntity fl depth s 1)"
proof -
  from assms have live: "hasEntity s 1" by (simp add: self_child_def hasEntity_def)
  from frame_self_child [of "remove_nested fl depth" s None] remove_nested_self_child assms
  have "emptied (fst (frame_body (remove_nested fl depth) None s 1))
      \<and> snd (frame_body (remove_nested fl depth) None s 1)"
    by blast
  with live show ?thesis by (simp add: removeEntity_def)
qed

subsection \<open>A new transform with a parent\<close>

fun hierarchy_change :: "event \<Rightarrow> bool" where
  "hierarchy_change (EntityHierarchyChanged i p q src) = True"
| "hierarchy_change e = False"

text \<open>What a caller can observe of the hierarchy around entities 1 and 2.\<close>

definition links :: "store \<Rightarrow> jsval option \<times> jsval option \<times> jsval list \<times> jsval list \<times> event list" where
  "links s =
     (currentParent s 1, currentParent s 2, getChildren s 1, getChildren s 2,
      filter hierarchy_change (events s))"

text \<open>
  Claim C2 fails on the code for a new component. With entities 1 and 2 live and a
  transform on 1, \<^verbatim>\<open>addComponent(2, 'transform', {parent: 1})\<close> gives entity 2 its first
  transform: the constructor stores the parent 1, \<^verbatim>\<open>setParent\<close> is not called, the child set
  of 1 stays empty and no \<^verbatim>\<open>entityHierarchyChanged\<close> is emitted. The same call on an entity
  that already has a transform goes through \<^verbatim>\<open>setParent\<close>: 2 enters the child set of 1 and
  the event is emitted.
\<close>

theorem new_transform_parent_bypasses_setParent:
  "map_option links
     (store_run only_transform uninterrupted 1
        [DoCreateEntity, DoCreateEntity, DoAddComponent 1 ''transform'' [],
         DoAddComponent 2 ''transform'' [(''parent'', JNum 1)]] new_EntityManager)
     = Some (Some JNull, Some (JNum 1), [], [], [])
   \<and> map_option links
     (store_run only_transform uninterrupted 1
        [DoCreateEntity, DoCreateEntity, DoAddComponent 1 ''transform'' [],
         DoAddComponent 2 ''transform'' [],
         DoAddComponent 2 ''transform'' [(''parent'', JNum 1)]] new_EntityManager)
     = Some (Some JNull, Some (JNum 1), [JNum 2], [],
             [EntityHierarchyChanged 2 (JNum 1) JNull (JStr ''unknown'')])"
  by (simp add: links_def currentParent_def getChildren_def store_eval only_transform_def)

text \<open>
  Claim C1 fails on the code after such a call. \<^verbatim>\<open>addComponent(1, 'transform', {parent: 7})\<close>
  on a store whose only entity is 1 returns with the parent of 1 set to 7, which is not a
  live entity; with \<^verbatim>\<open>{parent: 1}\<close> entity 1 becomes its own parent, a cycle; and with a
  second entity as parent, the parent's child set does not contain the child.
\<close>

theorem new_transform_parent_breaks_hierarchy:
  "map_option (\<lambda>s. (currentParent s 1, hasEntity s 7))
     (store_run only_transform uninterrupted 1
        [DoCreateEntity, DoAddComponent 1 ''transform'' [(''parent'', JNum 7)]]
        new_EntityManager)
     = Some (Some (JNum 7), False)
   \<and> map_option (\<lambda>s. (currentParent s 1, ancestor_within 0 s 1 (JNum 1)))
     (store_run only_transform uninterrupted 1
        [DoCreateEntity, DoAddComponent 1 ''transform'' [(''parent'', JNum 1)]]
        new_EntityManager)
     = Some (Some (JNum 1), True)
   \<and> map_option (\<lambda>s. (currentParent s 2, hasEntity s 1, getChildren s 1))
     (store_run only_transform uninterrupted 1
        [DoCreateEntity, DoCreateEntity, DoAddComponent 1 ''transform'' [],
         DoAddComponent 2 ''transform'' [(''parent'', JNum 1)]] new_EntityManager)
     = Some (Some (JNum 1), True, [])"
  by (simp add: currentParent_def getChildren_def store_eval only_transform_def)

subsection \<open>Round trip through the scene document\<close>






text \<open>The parent an entity has in a store (\<^verbatim>\<open>null\<close> without a transform).\<close>

definition parent_of :: "store \<Rightarrow> int \<Rightarrow> jsval" where
  "parent_of s i = (case getTransform s i of None \<Rightarrow> JNull | Some t \<Rightarrow> parent t)"

text \<open>What the first pass of \<^verbatim>\<open>deserialize\<close> builds from the record of a component.\<close>

definition json_array :: "jsval \<Rightarrow> jsval" where
  "json_array v = JArr (map json_element (case spread v of None \<Rightarrow> [] | Some xs \<Rightarrow> xs))"

definition rebuilt_transform :: "transform \<Rightarrow> transform" where
  "rebuilt_transform t =
     \<lparr>position = json_array (position t), rotation = json_array (rotation t),
      scale = json_array (scale t), parent = JNull, children = []\<rparr>"

definition rebuilt_props :: "cclass \<Rightarrow> int \<Rightarrow> jsobject \<Rightarrow> jsobject" where
  "rebuilt_props c i props =
     (case serialize_fields c props of
        Serialized obj \<Rightarrow>
          (case construct c (AList.delete ''source'' (json_object obj)) of
             None \<Rightarrow> props
           | Some props2 \<Rightarrow> (case onAdd c i props2 of None \<Rightarrow> props | Some props3 \<Rightarrow> props3))
      | _ \<Rightarrow> props)"

definition rebuilt_instance :: "registry \<Rightarrow> int \<Rightarrow> string \<times> jsobject \<Rightarrow> string \<times> jsobject" where
  "rebuilt_instance reg i entry =
     (fst entry,
      (case classes reg (fst entry) of
         None \<Rightarrow> snd entry
       | Some c \<Rightarrow> rebuilt_props c i (snd entry)))"

definition rebuilt :: "registry \<Rightarrow> int \<Rightarrow> components \<Rightarrow> components" where
  "rebuilt reg i m =
     \<lparr>transformSlot = map_option rebuilt_transform (transformSlot m),
      others = map (rebuilt_instance reg i) (others m)\<rparr>"

text \<open>The hierarchy fields after the second pass has handled the ids in \<open>seen\<close>.\<close>

definition linked :: "store \<Rightarrow> int list \<Rightarrow> int \<Rightarrow> components \<Rightarrow> components" where
  "linked s seen i m =
     m\<lparr>transformSlot :=
         map_option
           (\<lambda>t. t\<lparr>parent := (if i \<in> set seen then parent_of s i else JNull),
                  children := map JNum (filter (\<lambda>c. parent_of s c = JNum i) seen)\<rparr>)
           (transformSlot m)\<rparr>"

text \<open>
  The record that \<^verbatim>\<open>serialize\<close> writes for a live entity; the document is the list of these
  records by ascending id.
\<close>

definition record_of :: "registry \<Rightarrow> store \<Rightarrow> int \<Rightarrow> entity_record" where
  "record_of reg s i =
     \<lparr>rec_id = Some i,
      rec_components =
        map (\<lambda>e. (fst e, Some (json_object (snd e))))
          (case getEntityState reg s i of None \<Rightarrow> [] | Some comps \<Rightarrow> comps)\<rparr>"

text \<open>The component maps after the first pass has restored the ids in \<open>pre\<close>.\<close>

definition restored :: "registry \<Rightarrow> store \<Rightarrow> int list \<Rightarrow> int \<Rightarrow> components option" where
  "restored reg s pre =
     (\<lambda>i. if i \<in> set pre then map_option (rebuilt reg i) (entityComponents s i) else None)"




subsection \<open>Facts about JSON forms\<close>

lemma json_element_idem: "json_element (json_element v) = json_element v"
proof (induction v rule: json_element.induct)
  case (2 xs)
  then show ?case by (simp add: map_idI)
qed simp_all

lemma json_element_defined [simp]: "json_element v \<noteq> JUndefined"
  by (cases v) simp_all

lemma json_object_idem: "json_object (json_object obj) = json_object obj"
  by (induction obj) (auto simp: json_object_def json_element_idem)




subsection \<open>The first pass\<close>


lemma not_blank_transform [simp]: "\<not> blank ''transform''"
  by (simp add: blank_def is_space_def)





lemma fold_option_append:
  "fold_option f (xs @ ys) a =
     (case fold_option f xs a of None \<Rightarrow> None | Some b \<Rightarrow> fold_option f ys b)"
  by (induction xs arbitrary: a) (auto split: option.splits)

lemma fst_rebuilt_instance [simp]: "fst (rebuilt_instance reg i e) = fst e"
  by (simp add: rebuilt_instance_def)







subsection \<open>Parent chains without a cycle\<close>





subsection \<open>The second pass\<close>



lemma rec_id_record_of [simp]: "rec_id (record_of reg s i) = Some i"
  by (simp add: record_of_def)













subsection \<open>The store after the round trip\<close>














end
